theory Spec2Isabelle
  imports Main "HOL-Library.Word" "HOL-Library.AList" "HOL-Library.Sublist"
begin

unbundle bit_operations_syntax

section \<open>Python values, exceptions and the \<open>struct\<close> module\<close>

text \<open>
  A \<open>bytes\<close> object is a list of 8-bit words.  Python's \<open>str\<close> values that travel
  through the codecs are lists of code points; attribute names and format names are
  written as HOL strings.
\<close>

type_synonym byte = "8 word"
type_synonym bytes = "byte list"

text \<open>The exception classes the library can raise; messages are not modelled.\<close>

datatype error =
    ValueError | KeyError | TypeError | AttributeError | IndexError
  | AssertionError | StructError | UnicodeError | NetlinkError

text \<open>
  \<open>sys.byteorder\<close>: the formats \<open>"@HH"\<close>, \<open>"=B"\<close>, ... all use the byte order of the
  host, which is a parameter of every function that packs or unpacks.
\<close>

datatype byteorder = LittleEndian | BigEndian

text \<open>Python slicing \<open>data[a:b]\<close> for \<open>0 \<le> a\<close>, \<open>0 \<le> b\<close>: clamps, never raises.\<close>

definition py_slice :: "'a list \<Rightarrow> nat \<Rightarrow> nat \<Rightarrow> 'a list" where
  "py_slice xs a b = take (b - a) (drop a xs)"

fun le_bytes :: "nat \<Rightarrow> nat \<Rightarrow> bytes" where
  "le_bytes 0 n = []"
| "le_bytes (Suc w) n = of_nat (n mod 256) # le_bytes w (n div 256)"

fun le_value :: "bytes \<Rightarrow> nat" where
  "le_value [] = 0"
| "le_value (b # bs) = unat b + 256 * le_value bs"

definition native_bytes :: "byteorder \<Rightarrow> nat \<Rightarrow> nat \<Rightarrow> bytes" where
  "native_bytes bo w n = (case bo of LittleEndian \<Rightarrow> le_bytes w n | BigEndian \<Rightarrow> rev (le_bytes w n))"

definition native_value :: "byteorder \<Rightarrow> bytes \<Rightarrow> nat" where
  "native_value bo bs = le_value (case bo of LittleEndian \<Rightarrow> bs | BigEndian \<Rightarrow> rev bs)"

text \<open>
  The five single-integer formats of \<open>int_type_to_fmt\<close>: \<open>"=B"\<close>, \<open>"=H"\<close>, \<open>"=h"\<close>,
  \<open>"=I"\<close>, \<open>"=Q"\<close>.  \<open>struct.pack\<close> raises \<open>struct.error\<close> when the argument is not an
  integer of the format's range; \<open>struct.unpack\<close> raises it when the buffer does not
  have exactly \<open>calcsize\<close> bytes.
\<close>

datatype int_fmt = Fmt_B | Fmt_H | Fmt_h | Fmt_I | Fmt_Q

fun calcsize :: "int_fmt \<Rightarrow> nat" where
  "calcsize Fmt_B = 1"
| "calcsize Fmt_H = 2"
| "calcsize Fmt_h = 2"
| "calcsize Fmt_I = 4"
| "calcsize Fmt_Q = 8"

fun fmt_signed :: "int_fmt \<Rightarrow> bool" where
  "fmt_signed Fmt_h = True"
| "fmt_signed _ = False"

definition fmt_min :: "int_fmt \<Rightarrow> int" where
  "fmt_min f = (if fmt_signed f then - (2 ^ (8 * calcsize f - 1)) else 0)"

definition fmt_max :: "int_fmt \<Rightarrow> int" where
  "fmt_max f = (if fmt_signed f then 2 ^ (8 * calcsize f - 1) - 1 else 2 ^ (8 * calcsize f) - 1)"

definition struct_pack :: "byteorder \<Rightarrow> int_fmt \<Rightarrow> int \<Rightarrow> error + bytes" where
  "struct_pack bo f v =
     (if fmt_min f \<le> v \<and> v \<le> fmt_max f
      then Inr (native_bytes bo (calcsize f) (nat (v mod 2 ^ (8 * calcsize f))))
      else Inl StructError)"

definition struct_unpack :: "byteorder \<Rightarrow> int_fmt \<Rightarrow> bytes \<Rightarrow> error + int" where
  "struct_unpack bo f data =
     (if length data \<noteq> calcsize f then Inl StructError
      else let u = int (native_value bo data)
           in Inr (if fmt_signed f \<and> 2 ^ (8 * calcsize f - 1) \<le> u
                   then u - 2 ^ (8 * calcsize f) else u))"

text \<open>The attribute header format \<open>"@HH"\<close>: two unsigned 16-bit fields, four bytes.\<close>

definition attrib_hdr_len :: nat where
  "attrib_hdr_len = 4"

definition pack_HH :: "byteorder \<Rightarrow> int \<Rightarrow> int \<Rightarrow> error + bytes" where
  "pack_HH bo a b =
     (case struct_pack bo Fmt_H a of
        Inl e \<Rightarrow> Inl e
      | Inr x \<Rightarrow> (case struct_pack bo Fmt_H b of
                   Inl e \<Rightarrow> Inl e
                 | Inr y \<Rightarrow> Inr (x @ y)))"

definition unpack_HH :: "byteorder \<Rightarrow> bytes \<Rightarrow> error + (nat \<times> nat)" where
  "unpack_HH bo data =
     (if length data \<noteq> attrib_hdr_len then Inl StructError
      else Inr (native_value bo (take 2 data), native_value bo (drop 2 data)))"

section \<open>\<open>netlink.py\<close>: alignment, padding and the attribute splitter\<close>

definition align :: "nat \<Rightarrow> nat" where
  "align sz = (sz + 0x03) AND (((push_bit 64 1) - 1) - 3)"

definition pad :: "bytes \<Rightarrow> bytes" where
  "pad data = (let padding_len = align (length data) - length data
               in data @ replicate padding_len 0)"

datatype GNLAttribute = GNLAttribute (alength: nat) (atype: nat) (adata: bytes)

lemma align_mask: "((push_bit 64 (1::nat)) - 1) - 3 = push_bit 2 (mask 62)"
  by (simp add: mask_eq_exp_minus_1 push_bit_eq_mult)

lemma align_bits: "align n = push_bit 2 (drop_bit 2 (take_bit 64 (n + 3)))"
proof (rule bit_eqI)
  fix k
  have "2 \<le> k \<Longrightarrow> Suc (Suc (k - 2)) = k"
    by simp
  then show "bit (align n) k = bit (push_bit 2 (drop_bit 2 (take_bit 64 (n + 3)))) k"
    unfolding align_def align_mask
    by (auto simp add: bit_simps)
qed

lemma align_eq: "align n = ((n + 3) mod 2 ^ 64) div 4 * 4"
  by (simp add: align_bits push_bit_eq_mult drop_bit_eq_div take_bit_eq_mod)

lemma align_small: "n < 65536 \<Longrightarrow> align n = (n + 3) div 4 * 4"
  by (simp add: align_eq)

lemma align_ge: "n < 65536 \<Longrightarrow> n \<le> align n"
  by (simp add: align_small)

lemma native_value_lt: "native_value bo bs < 256 ^ length bs"
proof -
  have "le_value xs < 256 ^ length xs" for xs
  proof (induction xs)
    case Nil
    show ?case by simp
  next
    case (Cons b xs)
    have "unat b < 256"
      using unsigned_less [of b] by simp
    with Cons show ?case by simp
  qed
  from this [of "case bo of LittleEndian \<Rightarrow> bs | BigEndian \<Rightarrow> rev bs"]
  show ?thesis
    by (cases bo) (simp_all add: native_value_def)
qed

lemma unpack_HH_bound:
  assumes "unpack_HH bo hdr = Inr (l, t)"
  shows "l < 65536" and "t < 65536"
proof -
  from assms have len: "length hdr = 4" and l: "l = native_value bo (take 2 hdr)"
    and t: "t = native_value bo (drop 2 hdr)"
    by (auto simp: unpack_HH_def attrib_hdr_len_def split: if_splits)
  show "l < 65536"
    using native_value_lt [of bo "take 2 hdr"] len by (simp add: l)
  show "t < 65536"
    using native_value_lt [of bo "drop 2 hdr"] len by (simp add: t)
qed

text \<open>
  \<open>parse_generic_attributes\<close>: the \<open>while index < len(data)\<close> loop, with the loop
  variables as arguments.  The statements keep their order: the header is unpacked
  (which raises on a py_slice shorter than four bytes), the payload is sliced, the
  index advanced, and only then \<open>assert nla_len\<close> is checked.
\<close>

function parse_generic_attributes_loop ::
  "byteorder \<Rightarrow> bytes \<Rightarrow> nat \<Rightarrow> GNLAttribute list \<Rightarrow> error + GNLAttribute list" where
  "parse_generic_attributes_loop bo data index attributes =
     (if index < length data then
        (case unpack_HH bo (py_slice data index (index + attrib_hdr_len)) of
           Inl e \<Rightarrow> Inl e
         | Inr (nla_len, nla_type) \<Rightarrow>
             (let nla_data = py_slice data (index + align attrib_hdr_len) (index + nla_len);
                  index' = index + align nla_len
              in if nla_len = 0 then Inl AssertionError
                 else parse_generic_attributes_loop bo data index'
                        (attributes @ [GNLAttribute nla_len nla_type nla_data])))
      else Inr attributes)"
  by pat_completeness auto
termination
proof (relation "measure (\<lambda>(bo, data, index, attributes). length data - index)", goal_cases)
  case 1
  show ?case by simp
next
  case (2 bo data index attributes x2 nla_len nla_type nla_data index')
  from 2 have "nla_len < 65536"
    using unpack_HH_bound(1) by blast
  then have "nla_len \<le> align nla_len"
    by (rule align_ge)
  with 2 show ?case
    by simp
qed

definition parse_generic_attributes :: "byteorder \<Rightarrow> bytes \<Rightarrow> error + GNLAttribute list" where
  "parse_generic_attributes bo data = parse_generic_attributes_loop bo data 0 []"

section \<open>Value trees\<close>

text \<open>
  The Python values the codecs exchange with their caller: \<open>int\<close>, \<open>str\<close>, \<open>bytes\<close>,
  \<open>list\<close>, a mapping from attribute names to values in insertion order (a \<open>dict\<close> on
  the way in, an \<open>NlAttrSet\<close> on the way out: both are \<open>Mapping\<close>s, compared by their
  items), and \<open>None\<close>.
\<close>

datatype "value" =
    VInt int
  | VStr "nat list"
  | VBytes bytes
  | VList "value list"
  | VMapping "(string \<times> value) list"
  | VNone

text \<open>\<open>bool(x)\<close>.\<close>

fun truthy :: "value \<Rightarrow> bool" where
  "truthy (VInt n) = (n \<noteq> 0)"
| "truthy (VStr s) = (s \<noteq> [])"
| "truthy (VBytes b) = (b \<noteq> [])"
| "truthy (VList xs) = (xs \<noteq> [])"
| "truthy (VMapping kvs) = (kvs \<noteq> [])"
| "truthy VNone = False"

text \<open>\<open>for x in v\<close>: what iterating over a value yields, or \<open>TypeError\<close>.\<close>

fun py_iter :: "value \<Rightarrow> error + value list" where
  "py_iter (VList xs) = Inr xs"
| "py_iter (VBytes b) = Inr (map (\<lambda>x. VInt (uint x)) b)"
| "py_iter (VStr s) = Inr (map (\<lambda>c. VStr [c]) s)"
| "py_iter (VMapping kvs) = Inr (map (\<lambda>(k, v). VStr (map of_char k)) kvs)"
| "py_iter (VInt n) = Inl TypeError"
| "py_iter VNone = Inl TypeError"

text \<open>\<open>bytes(x)\<close>.\<close>

fun bytes_of_ints :: "value list \<Rightarrow> error + bytes" where
  "bytes_of_ints [] = Inr []"
| "bytes_of_ints (VInt i # xs) =
     (if 0 \<le> i \<and> i < 256
      then (case bytes_of_ints xs of Inl e \<Rightarrow> Inl e | Inr bs \<Rightarrow> Inr (of_int i # bs))
      else Inl ValueError)"
| "bytes_of_ints (_ # xs) = Inl TypeError"

fun py_bytes :: "value \<Rightarrow> error + bytes" where
  "py_bytes (VBytes b) = Inr b"
| "py_bytes (VInt n) = (if n < 0 then Inl ValueError else Inr (replicate (nat n) 0))"
| "py_bytes (VList xs) = bytes_of_ints xs"
| "py_bytes (VMapping kvs) = (if kvs = [] then Inr [] else Inl TypeError)"
| "py_bytes (VStr s) = Inl TypeError"
| "py_bytes VNone = Inl TypeError"

text \<open>
  \<open>bytes.decode()\<close>: strict UTF-8.  The lead byte fixes the number of continuation
  bytes and the range of the first of them (no overlong forms, no surrogates, nothing
  above U+10FFFF).
\<close>

definition is_cont :: "byte \<Rightarrow> bool" where
  "is_cont b = (0x80 \<le> b \<and> b \<le> 0xBF)"

definition cont_bits :: "byte \<Rightarrow> nat" where
  "cont_bits b = unat b mod 64"

definition utf8_cons :: "nat \<Rightarrow> error + nat list \<Rightarrow> error + nat list" where
  "utf8_cons c r = (case r of Inl e \<Rightarrow> Inl e | Inr cs \<Rightarrow> Inr (c # cs))"

fun utf8_decode :: "bytes \<Rightarrow> error + nat list" where
  "utf8_decode [] = Inr []"
| "utf8_decode (b0 # bs) =
     (if b0 < 0x80 then utf8_cons (unat b0) (utf8_decode bs)
      else if 0xC2 \<le> b0 \<and> b0 \<le> 0xDF then
        (case bs of
           b1 # r \<Rightarrow>
             (if is_cont b1
              then utf8_cons (unat b0 mod 32 * 64 + cont_bits b1) (utf8_decode r)
              else Inl UnicodeError)
         | _ \<Rightarrow> Inl UnicodeError)
      else if 0xE0 \<le> b0 \<and> b0 \<le> 0xEF then
        (case bs of
           b1 # b2 # r \<Rightarrow>
             (if (if b0 = 0xE0 then 0xA0 else 0x80) \<le> b1
                 \<and> b1 \<le> (if b0 = 0xED then 0x9F else 0xBF) \<and> is_cont b2
              then utf8_cons ((unat b0 mod 16 * 64 + cont_bits b1) * 64 + cont_bits b2)
                     (utf8_decode r)
              else Inl UnicodeError)
         | _ \<Rightarrow> Inl UnicodeError)
      else if 0xF0 \<le> b0 \<and> b0 \<le> 0xF4 then
        (case bs of
           b1 # b2 # b3 # r \<Rightarrow>
             (if (if b0 = 0xF0 then 0x90 else 0x80) \<le> b1
                 \<and> b1 \<le> (if b0 = 0xF4 then 0x8F else 0xBF) \<and> is_cont b2 \<and> is_cont b3
              then utf8_cons
                     (((unat b0 mod 8 * 64 + cont_bits b1) * 64 + cont_bits b2) * 64
                      + cont_bits b3) (utf8_decode r)
              else Inl UnicodeError)
         | _ \<Rightarrow> Inl UnicodeError)
      else Inl UnicodeError)"

declare utf8_decode.simps(2) [simp del]

text \<open>\<open>str.encode("ascii")\<close>.\<close>

definition encode_ascii :: "nat list \<Rightarrow> error + bytes" where
  "encode_ascii s = (if list_all (\<lambda>c. c < 128) s then Inr (map of_nat s) else Inl UnicodeError)"

section \<open>\<open>nlattr.py\<close>: the leaf codecs\<close>

definition NlAttrSchemaInt_build :: "byteorder \<Rightarrow> int_fmt \<Rightarrow> value \<Rightarrow> error + bytes" where
  "NlAttrSchemaInt_build bo fmt val =
     (case val of VInt n \<Rightarrow> struct_pack bo fmt n | _ \<Rightarrow> Inl StructError)"

definition NlAttrSchemaInt_parse :: "byteorder \<Rightarrow> int_fmt \<Rightarrow> bytes \<Rightarrow> error + value" where
  "NlAttrSchemaInt_parse bo fmt data =
     (case struct_unpack bo fmt data of Inl e \<Rightarrow> Inl e | Inr n \<Rightarrow> Inr (VInt n))"

definition NlAttrSchemaStr_build :: "value \<Rightarrow> error + bytes" where
  "NlAttrSchemaStr_build val =
     (case val of
        VStr s \<Rightarrow> (case encode_ascii s of Inl e \<Rightarrow> Inl e | Inr b \<Rightarrow> Inr (b @ [0]))
      | _ \<Rightarrow> Inl AttributeError)"

definition NlAttrSchemaStr_parse :: "bytes \<Rightarrow> error + value" where
  "NlAttrSchemaStr_parse data =
     (case utf8_decode data of
        Inl e \<Rightarrow> Inl e
      | Inr s \<Rightarrow>
          (if s = [] then Inl IndexError
           else if last s = 0 then Inr (VStr (butlast s))
           else Inr (VStr s)))"

definition NlAttrSchemaBytes_build :: "value \<Rightarrow> error + bytes" where
  "NlAttrSchemaBytes_build data = py_bytes data"

definition NlAttrSchemaBytes_parse :: "bytes \<Rightarrow> error + value" where
  "NlAttrSchemaBytes_parse data = Inr (VBytes data)"

section \<open>\<open>nlattr.py\<close>: the collection codecs\<close>

text \<open>
  A child schema is used through its bound methods \<open>build\<close> and \<open>parse\<close>, which the
  methods below take as arguments.  A \<open>parse\<close> returns the value together with the
  warnings issued on the way (\<open>warnings.warn\<close>); warnings issued before an exception
  are not tracked.
\<close>

type_synonym ids = "(string \<times> int) list"

text \<open>
  The warning for an attribute of unknown type: its type and the names that the id
  table maps to that number (the message is formatted from the two).
\<close>

datatype warning = UnknownAttribute nat "string list"

type_synonym builder = "value \<Rightarrow> error + bytes"
type_synonym parser = "bytes \<Rightarrow> error + (value \<times> warning list)"

fun NlAttrSchemaList_build_loop ::
  "byteorder \<Rightarrow> builder \<Rightarrow> nat \<Rightarrow> value list \<Rightarrow> bytes \<Rightarrow> error + bytes" where
  "NlAttrSchemaList_build_loop bo build_sub i [] payload = Inr payload"
| "NlAttrSchemaList_build_loop bo build_sub i (val # rest) payload =
     (case build_sub val of
        Inl e \<Rightarrow> Inl e
      | Inr attr_payload \<Rightarrow>
          (let length' = attrib_hdr_len + length attr_payload;
               attr_id = i + 1
           in case pack_HH bo (int length') (int attr_id) of
                Inl e \<Rightarrow> Inl e
              | Inr hdr \<Rightarrow>
                  NlAttrSchemaList_build_loop bo build_sub (i + 1) rest
                    (payload @ pad (hdr @ attr_payload))))"

definition NlAttrSchemaList_build :: "byteorder \<Rightarrow> builder \<Rightarrow> value \<Rightarrow> error + bytes" where
  "NlAttrSchemaList_build bo build_sub attr_values =
     (case py_iter attr_values of
        Inl e \<Rightarrow> Inl e
      | Inr vals \<Rightarrow> NlAttrSchemaList_build_loop bo build_sub 0 vals [])"

text \<open>\<open>ret[i] = v\<close> on a list: a negative index counts from the end.\<close>

definition list_setitem :: "'a list \<Rightarrow> int \<Rightarrow> 'a \<Rightarrow> error + 'a list" where
  "list_setitem xs i v =
     (let n = int (length xs); j = (if i < 0 then i + n else i)
      in if 0 \<le> j \<and> j < n then Inr (xs[nat j := v]) else Inl IndexError)"

fun max_atype :: "GNLAttribute list \<Rightarrow> nat" where
  "max_atype [] = 0"
| "max_atype (a # as) = max (atype a) (max_atype as)"

fun NlAttrSchemaList_parse_loop ::
  "parser \<Rightarrow> GNLAttribute list \<Rightarrow> value list \<Rightarrow> warning list
    \<Rightarrow> error + (value list \<times> warning list)" where
  "NlAttrSchemaList_parse_loop parse_sub [] ret ws = Inr (ret, ws)"
| "NlAttrSchemaList_parse_loop parse_sub (attr # rest) ret ws =
     (case parse_sub (adata attr) of
        Inl e \<Rightarrow> Inl e
      | Inr (v, ws') \<Rightarrow>
          (case list_setitem ret (int (atype attr) - 1) v of
             Inl e \<Rightarrow> Inl e
           | Inr ret' \<Rightarrow> NlAttrSchemaList_parse_loop parse_sub rest ret' (ws @ ws')))"

definition NlAttrSchemaList_parse :: "byteorder \<Rightarrow> parser \<Rightarrow> parser" where
  "NlAttrSchemaList_parse bo parse_sub data =
     (case parse_generic_attributes bo data of
        Inl e \<Rightarrow> Inl e
      | Inr attrs \<Rightarrow>
          (if attrs = [] then Inr (VList [], [])
           else (case NlAttrSchemaList_parse_loop parse_sub attrs
                        (replicate (max_atype attrs) VNone) [] of
                   Inl e \<Rightarrow> Inl e
                 | Inr (ret, ws) \<Rightarrow> Inr (VList ret, ws))))"

fun NlAttrSchemaArray_build_loop :: "builder \<Rightarrow> value list \<Rightarrow> bytes \<Rightarrow> error + bytes" where
  "NlAttrSchemaArray_build_loop build_sub [] payload = Inr payload"
| "NlAttrSchemaArray_build_loop build_sub (val # rest) payload =
     (case build_sub val of
        Inl e \<Rightarrow> Inl e
      | Inr b \<Rightarrow> NlAttrSchemaArray_build_loop build_sub rest (payload @ b))"

definition NlAttrSchemaArray_build :: "builder \<Rightarrow> value \<Rightarrow> error + bytes" where
  "NlAttrSchemaArray_build build_sub attr_values =
     (case py_iter attr_values of
        Inl e \<Rightarrow> Inl e
      | Inr vals \<Rightarrow> NlAttrSchemaArray_build_loop build_sub vals [])"

lemma calcsize_pos: "0 < calcsize fmt"
  by (cases fmt) simp_all

text \<open>
  \<open>NlAttrSchemaArray.parse\<close>: \<open>while data:\<close> with \<open>elem_size = subelem_schema.size\<close>.
  Only \<open>NlAttrSchemaInt\<close> has a \<open>size\<close> (the array's constructor refuses every other
  class), so the element schema is given by its format.
\<close>

function NlAttrSchemaArray_parse_loop ::
  "byteorder \<Rightarrow> int_fmt \<Rightarrow> bytes \<Rightarrow> value list \<Rightarrow> error + value list" where
  "NlAttrSchemaArray_parse_loop bo fmt data ret =
     (if data \<noteq> [] then
        (let elem_size = calcsize fmt
         in case NlAttrSchemaInt_parse bo fmt (take elem_size data) of
              Inl e \<Rightarrow> Inl e
            | Inr v \<Rightarrow> NlAttrSchemaArray_parse_loop bo fmt (drop elem_size data) (ret @ [v]))
      else Inr ret)"
  by pat_completeness auto
termination
  by (relation "measure (\<lambda>(bo, fmt, data, ret). length data)") (auto simp: calcsize_pos)

definition NlAttrSchemaArray_parse :: "byteorder \<Rightarrow> int_fmt \<Rightarrow> parser" where
  "NlAttrSchemaArray_parse bo fmt data =
     (case NlAttrSchemaArray_parse_loop bo fmt data [] of
        Inl e \<Rightarrow> Inl e
      | Inr ret \<Rightarrow> Inr (VList ret, []))"

section \<open>\<open>nlattr.py\<close>: the attribute-set codec \<open>NlAttrSchema\<close>\<close>

text \<open>
  \<open>{self.name_mapping[k]: v for k, v in kwargs.items()}\<close>: a dict keeps the position
  of a key's first insertion and the value of its last.
\<close>

fun translate_kwargs ::
  "(string \<times> string) list \<Rightarrow> (string \<times> value) list \<Rightarrow> (string \<times> value) list
    \<Rightarrow> error + (string \<times> value) list" where
  "translate_kwargs name_mapping [] acc = Inr acc"
| "translate_kwargs name_mapping ((k, v) # rest) acc =
     (case map_of name_mapping k of
        None \<Rightarrow> Inl KeyError
      | Some name \<Rightarrow> translate_kwargs name_mapping rest (AList.update name v acc))"

fun NlAttrSchema_build_loop ::
  "byteorder \<Rightarrow> (string \<times> builder) list \<Rightarrow> ids \<Rightarrow> (string \<times> value) list \<Rightarrow> bytes
    \<Rightarrow> error + bytes" where
  "NlAttrSchema_build_loop bo subattr_schemata ids [] payload = Inr payload"
| "NlAttrSchema_build_loop bo subattr_schemata ids ((name, val) # rest) payload =
     (case map_of subattr_schemata name of
        None \<Rightarrow> Inl KeyError
      | Some build_sub \<Rightarrow>
          (case build_sub val of
             Inl e \<Rightarrow> Inl e
           | Inr attr_payload \<Rightarrow>
               (let length' = attrib_hdr_len + length attr_payload
                in case map_of ids name of
                     None \<Rightarrow> Inl KeyError
                   | Some attr_id \<Rightarrow>
                       (case pack_HH bo (int length') attr_id of
                          Inl e \<Rightarrow> Inl e
                        | Inr hdr \<Rightarrow>
                            NlAttrSchema_build_loop bo subattr_schemata ids rest
                              (payload @ pad (hdr @ attr_payload))))))"

text \<open>
  \<open>NlAttrSchema.build(self, _attr_values=None, **kwargs)\<close>.  The set differences are
  the lists of the offending keys.  A truthy first argument that is not a mapping
  makes \<open>set(attr_values)\<close>, the difference or \<open>.items()\<close> raise; the model reports
  \<open>TypeError\<close> for all of these.
\<close>

definition NlAttrSchema_build ::
  "byteorder \<Rightarrow> (string \<times> builder) list \<Rightarrow> ids \<Rightarrow> string list \<Rightarrow> (string \<times> string) list
    \<Rightarrow> value \<Rightarrow> (string \<times> value) list \<Rightarrow> error + bytes" where
  "NlAttrSchema_build bo subattr_schemata ids required_attrs name_mapping attr_values_arg kwargs =
     (if truthy attr_values_arg = (kwargs \<noteq> []) then Inl ValueError
      else
        (case (if kwargs \<noteq> [] then
                 (let unknown_kwargs =
                        filter (\<lambda>k. k \<notin> set (map fst name_mapping)) (map fst kwargs)
                  in if unknown_kwargs \<noteq> [] then Inl ValueError
                     else (case translate_kwargs name_mapping kwargs [] of
                             Inl e \<Rightarrow> Inl e
                           | Inr kvs \<Rightarrow> Inr (VMapping kvs)))
               else Inr attr_values_arg) of
           Inl e \<Rightarrow> Inl e
         | Inr (VMapping attr_values) \<Rightarrow>
             (let unknown_attrs =
                    filter (\<lambda>n. n \<notin> set (map fst subattr_schemata)) (map fst attr_values);
                  missing_attrs =
                    filter (\<lambda>n. n \<notin> set (map fst attr_values)) required_attrs
              in if unknown_attrs \<noteq> [] then Inl ValueError
                 else if missing_attrs \<noteq> [] then Inl ValueError
                 else NlAttrSchema_build_loop bo subattr_schemata ids attr_values [])
         | Inr _ \<Rightarrow> Inl TypeError))"

text \<open>
  The \<open>for attr_name, attr_type in self.subattr_schemata.items()\<close> search of
  \<open>parse\<close>: the first child whose id equals the attribute's type; \<open>self.ids[attr_name]\<close>
  raises \<open>KeyError\<close> for a child the table does not know.
\<close>

fun find_attr :: "(string \<times> 'p) list \<Rightarrow> ids \<Rightarrow> nat \<Rightarrow> error + (string \<times> 'p) option" where
  "find_attr [] ids t = Inr None"
| "find_attr ((attr_name, attr_type) # rest) ids t =
     (case map_of ids attr_name of
        None \<Rightarrow> Inl KeyError
      | Some i \<Rightarrow> if int t = i then Inr (Some (attr_name, attr_type)) else find_attr rest ids t)"

definition candidates :: "ids \<Rightarrow> nat \<Rightarrow> string list" where
  "candidates ids t = map fst (filter (\<lambda>(n, i). i = int t) ids)"

fun NlAttrSchema_parse_loop ::
  "(string \<times> parser) list \<Rightarrow> ids \<Rightarrow> GNLAttribute list \<Rightarrow> (string \<times> value) list
    \<Rightarrow> warning list \<Rightarrow> error + ((string \<times> value) list \<times> warning list)" where
  "NlAttrSchema_parse_loop subattr_schemata ids [] attr_values ws = Inr (attr_values, ws)"
| "NlAttrSchema_parse_loop subattr_schemata ids (attr # rest) attr_values ws =
     (case find_attr subattr_schemata ids (atype attr) of
        Inl e \<Rightarrow> Inl e
      | Inr None \<Rightarrow>
          NlAttrSchema_parse_loop subattr_schemata ids rest attr_values
            (ws @ [UnknownAttribute (atype attr) (candidates ids (atype attr))])
      | Inr (Some (attr_name, attr_type)) \<Rightarrow>
          (case attr_type (adata attr) of
             Inl e \<Rightarrow> Inl NetlinkError
           | Inr (v, ws') \<Rightarrow>
               NlAttrSchema_parse_loop subattr_schemata ids rest
                 (AList.update attr_name v attr_values) (ws @ ws')))"

text \<open>
  \<open>NlAttrSchema.parse\<close>: the splitter, then the loop over the attributes and the
  check for required attributes.
\<close>

definition NlAttrSchema_parse_attrs ::
  "(string \<times> parser) list \<Rightarrow> ids \<Rightarrow> string list \<Rightarrow> GNLAttribute list
    \<Rightarrow> error + (value \<times> warning list)" where
  "NlAttrSchema_parse_attrs subattr_schemata ids required_attrs attrs =
     (case NlAttrSchema_parse_loop subattr_schemata ids attrs [] [] of
        Inl e \<Rightarrow> Inl e
      | Inr (attr_values, ws) \<Rightarrow>
          (let missing_attrs =
                 filter (\<lambda>n. n \<notin> set (map fst attr_values)) required_attrs
           in if missing_attrs \<noteq> [] then Inl NetlinkError
              else Inr (VMapping attr_values, ws)))"

definition NlAttrSchema_parse ::
  "byteorder \<Rightarrow> (string \<times> parser) list \<Rightarrow> ids \<Rightarrow> string list \<Rightarrow> parser" where
  "NlAttrSchema_parse bo subattr_schemata ids required_attrs data =
     (case parse_generic_attributes bo data of
        Inl e \<Rightarrow> Inl e
      | Inr attrs \<Rightarrow> NlAttrSchema_parse_attrs subattr_schemata ids required_attrs attrs)"

section \<open>Schema objects and method dispatch\<close>

text \<open>
  The schema classes with their fields.  \<open>NlAttrSchemaInt\<close> stores its format (its
  \<open>size\<close> is the format's \<open>calcsize\<close>); the collections store the element schema and
  the id table; \<open>NlAttrSchema\<close> stores \<open>subattr_schemata\<close> (an \<open>OrderedDict\<close>), \<open>ids\<close>,
  \<open>required_attrs\<close> and \<open>name_mapping\<close>.
\<close>

datatype schema =
    NlAttrSchemaInt int_fmt
  | NlAttrSchemaStr
  | NlAttrSchemaBytes
  | NlAttrSchemaList schema ids
  | NlAttrSchemaArray schema ids
  | NlAttrSchema "(string \<times> schema) list" ids "string list" "(string \<times> string) list"

text \<open>\<open>hasattr(schema, "size")\<close> and its value.\<close>

fun schema_size :: "schema \<Rightarrow> nat option" where
  "schema_size (NlAttrSchemaInt fmt) = Some (calcsize fmt)"
| "schema_size _ = None"

primrec build :: "byteorder \<Rightarrow> schema \<Rightarrow> builder" where
  "build bo (NlAttrSchemaInt fmt) = NlAttrSchemaInt_build bo fmt"
| "build bo NlAttrSchemaStr = NlAttrSchemaStr_build"
| "build bo NlAttrSchemaBytes = NlAttrSchemaBytes_build"
| "build bo (NlAttrSchemaList subelem_schema ids) =
     NlAttrSchemaList_build bo (build bo subelem_schema)"
| "build bo (NlAttrSchemaArray subelem_schema ids) =
     NlAttrSchemaArray_build (build bo subelem_schema)"
| "build bo (NlAttrSchema subattr_schemata ids required_attrs name_mapping) =
     (\<lambda>attr_values.
        NlAttrSchema_build bo (map (map_prod id (build bo)) subattr_schemata) ids
          required_attrs name_mapping attr_values [])"

primrec parse :: "byteorder \<Rightarrow> schema \<Rightarrow> parser" where
  "parse bo (NlAttrSchemaInt fmt) =
     (\<lambda>data. map_sum id (\<lambda>v. (v, [])) (NlAttrSchemaInt_parse bo fmt data))"
| "parse bo NlAttrSchemaStr =
     (\<lambda>data. map_sum id (\<lambda>v. (v, [])) (NlAttrSchemaStr_parse data))"
| "parse bo NlAttrSchemaBytes =
     (\<lambda>data. map_sum id (\<lambda>v. (v, [])) (NlAttrSchemaBytes_parse data))"
| "parse bo (NlAttrSchemaList subelem_schema ids) =
     NlAttrSchemaList_parse bo (parse bo subelem_schema)"
| "parse bo (NlAttrSchemaArray subelem_schema ids) =
     (case subelem_schema of
        NlAttrSchemaInt fmt \<Rightarrow> NlAttrSchemaArray_parse bo fmt
      | _ \<Rightarrow> (\<lambda>data. Inl AttributeError))"
| "parse bo (NlAttrSchema subattr_schemata ids required_attrs name_mapping) =
     NlAttrSchema_parse bo (map (map_prod id (parse bo)) subattr_schemata) ids required_attrs"

text \<open>
  The keyword form of \<open>build\<close> exists on \<open>NlAttrSchema\<close> only; the other classes'
  \<open>build\<close> takes one positional argument.
\<close>

definition build_kwargs ::
  "byteorder \<Rightarrow> schema \<Rightarrow> value \<Rightarrow> (string \<times> value) list \<Rightarrow> error + bytes" where
  "build_kwargs bo s attr_values kwargs =
     (case s of
        NlAttrSchema subattr_schemata ids required_attrs name_mapping \<Rightarrow>
          NlAttrSchema_build bo (map (map_prod id (build bo)) subattr_schemata) ids
            required_attrs name_mapping attr_values kwargs
      | _ \<Rightarrow> if kwargs = [] then build bo s attr_values else Inl TypeError)"

section \<open>Schema descriptions and \<open>from_spec\<close>\<close>

text \<open>
  A description is built from Python strings, lists and dicts.  A dict is given by
  the values of the keys it may have: \<open>"name"\<close>, \<open>"python_name"\<close>, \<open>"type"\<close>,
  \<open>"subelem_type"\<close> (absent: \<open>None\<close>) and \<open>"required"\<close> (absent: \<open>False\<close>).
\<close>

datatype spec =
    Str string
  | List "spec list"
  | Dict "string option" "string option" "spec option" "spec option" bool

datatype schema_class =
    Cls_NlAttrSchema | Cls_NlAttrSchemaInt | Cls_NlAttrSchemaStr | Cls_NlAttrSchemaBytes
  | Cls_NlAttrSchemaList | Cls_NlAttrSchemaArray

definition int_type_to_fmt :: "(string \<times> int_fmt) list" where
  "int_type_to_fmt =
     [(''u8'', Fmt_B), (''u16'', Fmt_H), (''s16'', Fmt_h), (''u32'', Fmt_I), (''u64'', Fmt_Q)]"

text \<open>The registry filled by the \<open>@schema_class\<close> decorator, in registration order.\<close>

definition schema_classes :: "(string \<times> schema_class) list" where
  "schema_classes =
     map (\<lambda>(n, f). (n, Cls_NlAttrSchemaInt)) int_type_to_fmt @
     [(''str'', Cls_NlAttrSchemaStr), (''bytes'', Cls_NlAttrSchemaBytes),
      (''list'', Cls_NlAttrSchemaList), (''array'', Cls_NlAttrSchemaArray)]"

fun get_schema_class :: "spec \<Rightarrow> error + schema_class" where
  "get_schema_class (List fields) = Inr Cls_NlAttrSchema"
| "get_schema_class (Str s) = Inl TypeError"
| "get_schema_class (Dict n p None st r) = Inl KeyError"
| "get_schema_class (Dict n p (Some (List fields)) st r) = Inr Cls_NlAttrSchema"
| "get_schema_class (Dict n p (Some (Str t)) st r) =
     (case map_of schema_classes t of None \<Rightarrow> Inl KeyError | Some c \<Rightarrow> Inr c)"
| "get_schema_class (Dict n p (Some (Dict n' p' t' st' r')) st r) = Inl TypeError"

text \<open>
  \<open>os.path.commonprefix\<close>: the longest string that is a prefix of every element, the
  empty string for an empty list.
\<close>

fun commonprefix :: "string list \<Rightarrow> string" where
  "commonprefix [] = []"
| "commonprefix (x # xs) = fold longest_common_prefix xs x"

text \<open>\<open>str.lower\<close> on the characters of attribute names (ASCII letters).\<close>

definition lower_char :: "char \<Rightarrow> char" where
  "lower_char c =
     (let n = (of_char c :: nat) in if 65 \<le> n \<and> n \<le> 90 then char_of (n + 32) else c)"

definition lower :: "string \<Rightarrow> string" where
  "lower s = map lower_char s"

definition endswith_underscore :: "string \<Rightarrow> bool" where
  "endswith_underscore s = (s \<noteq> [] \<and> last s = CHR ''_'')"

text \<open>
  The elements \<open>for a in spec\<close> visits in \<open>NlAttrSchema.from_spec\<close>.  Iterating a
  string or a dict yields strings, and \<open>a["name"]\<close> on a string raises \<open>TypeError\<close>;
  an empty string or dict yields nothing.
\<close>

fun spec_fields :: "spec \<Rightarrow> error + spec list" where
  "spec_fields (List fields) = Inr fields"
| "spec_fields (Str s) = (if s = [] then Inr [] else Inl TypeError)"
| "spec_fields (Dict n p t st r) =
     (if n = None \<and> p = None \<and> t = None \<and> st = None \<and> \<not> r then Inr [] else Inl TypeError)"

text \<open>\<open>list(a["name"] for a in spec)\<close>.\<close>

fun field_names :: "spec list \<Rightarrow> error + string list" where
  "field_names [] = Inr []"
| "field_names (Dict (Some n) p t st r # rest) =
     (case field_names rest of Inl e \<Rightarrow> Inl e | Inr ns \<Rightarrow> Inr (n # ns))"
| "field_names (Dict None p t st r # rest) = Inl KeyError"
| "field_names (_ # rest) = Inl TypeError"

text \<open>
  The body of the \<open>for field_spec in spec\<close> loop of \<open>NlAttrSchema.from_spec\<close>, given
  each field with the result of compiling it.
\<close>

fun from_spec_loop ::
  "string \<Rightarrow> (spec \<times> (error + schema)) list \<Rightarrow> (string \<times> schema) list
    \<Rightarrow> (string \<times> string) list \<Rightarrow> string list
    \<Rightarrow> error + ((string \<times> schema) list \<times> (string \<times> string) list \<times> string list)" where
  "from_spec_loop common_prefix [] subattr_schemata name_mapping required_attrs =
     Inr (subattr_schemata, name_mapping, required_attrs)"
| "from_spec_loop common_prefix ((field_spec, compiled) # rest) subattr_schemata name_mapping
       required_attrs =
     (case compiled of
        Inl e \<Rightarrow> Inl e
      | Inr subattr_schema \<Rightarrow>
          (case field_spec of
             Dict None pn t st required \<Rightarrow> Inl KeyError
           | Dict (Some name) pn t st required \<Rightarrow>
               (let python_name =
                      (case pn of
                         Some python_name \<Rightarrow> python_name
                       | None \<Rightarrow> lower (drop (length common_prefix) name))
                in from_spec_loop common_prefix rest
                     (AList.update name subattr_schema subattr_schemata)
                     (AList.update python_name name name_mapping)
                     (if required then required_attrs @ [name] else required_attrs))
           | _ \<Rightarrow> Inl TypeError))"

definition spec_rank :: "spec \<Rightarrow> nat" where
  "spec_rank sp = (case sp of Dict n p t (Some st) r \<Rightarrow> 1 | _ \<Rightarrow> 0)"

lemma spec_fields_size:
  "spec_fields sp = Inr fs \<Longrightarrow> f \<in> set fs \<Longrightarrow> size f < size sp"
  by (cases sp) (auto split: if_splits simp: less_Suc_eq_le size_list_estimation')

text \<open>
  \<open>from_spec\<close> of each schema class.  For the collections, a bare string as
  \<open>"subelem_type"\<close> stands for the dict \<open>{"type": <string>}\<close>; \<open>NlAttrSchemaArray\<close>'s
  constructor raises \<open>ValueError\<close> when the element schema has no \<open>size\<close>.
\<close>

function from_spec :: "schema_class \<Rightarrow> spec \<Rightarrow> ids \<Rightarrow> error + schema" where
  "from_spec Cls_NlAttrSchemaInt spec ids =
     (case spec of
        Dict n p (Some (Str t)) st r \<Rightarrow>
          (case map_of int_type_to_fmt t of
             None \<Rightarrow> Inl KeyError
           | Some fmt \<Rightarrow> Inr (NlAttrSchemaInt fmt))
      | Dict n p None st r \<Rightarrow> Inl KeyError
      | _ \<Rightarrow> Inl TypeError)"
| "from_spec Cls_NlAttrSchemaStr spec ids = Inr NlAttrSchemaStr"
| "from_spec Cls_NlAttrSchemaBytes spec ids = Inr NlAttrSchemaBytes"
| "from_spec Cls_NlAttrSchemaList spec ids =
     (case spec of
        Dict n p t None r \<Rightarrow> Inl KeyError
      | Dict n p t (Some st) r \<Rightarrow>
          (let subelem_spec = (case st of Str s \<Rightarrow> Dict None None (Some (Str s)) None False
                               | _ \<Rightarrow> st)
           in case get_schema_class subelem_spec of
                Inl e \<Rightarrow> Inl e
              | Inr subelem_schema_cls \<Rightarrow>
                  (case from_spec subelem_schema_cls subelem_spec ids of
                     Inl e \<Rightarrow> Inl e
                   | Inr subelem_schema \<Rightarrow> Inr (NlAttrSchemaList subelem_schema ids)))
      | _ \<Rightarrow> Inl TypeError)"
| "from_spec Cls_NlAttrSchemaArray spec ids =
     (case spec of
        Dict n p t None r \<Rightarrow> Inl KeyError
      | Dict n p t (Some st) r \<Rightarrow>
          (let subelem_spec = (case st of Str s \<Rightarrow> Dict None None (Some (Str s)) None False
                               | _ \<Rightarrow> st)
           in case get_schema_class subelem_spec of
                Inl e \<Rightarrow> Inl e
              | Inr subelem_schema_cls \<Rightarrow>
                  (case from_spec subelem_schema_cls subelem_spec ids of
                     Inl e \<Rightarrow> Inl e
                   | Inr subelem_schema \<Rightarrow>
                       (if schema_size subelem_schema = None then Inl ValueError
                        else Inr (NlAttrSchemaArray subelem_schema ids))))
      | _ \<Rightarrow> Inl TypeError)"
| "from_spec Cls_NlAttrSchema spec ids =
     (case (case spec of
              Dict n p None st r \<Rightarrow> Inl KeyError
            | Dict n p (Some t) st r \<Rightarrow> Inr t
            | _ \<Rightarrow> Inr spec) of
        Inl e \<Rightarrow> Inl e
      | Inr spec' \<Rightarrow>
          (case spec_fields spec' of
             Inl e \<Rightarrow> Inl e
           | Inr fields \<Rightarrow>
               (case field_names fields of
                  Inl e \<Rightarrow> Inl e
                | Inr names \<Rightarrow>
                    (let common_prefix = commonprefix names;
                         common_prefix = (if \<not> endswith_underscore common_prefix
                                          then common_prefix @ ''_'' else common_prefix)
                     in case from_spec_loop common_prefix
                               (map (\<lambda>field_spec.
                                       (field_spec,
                                        case get_schema_class field_spec of
                                          Inl e \<Rightarrow> Inl e
                                        | Inr schema_cls \<Rightarrow> from_spec schema_cls field_spec ids))
                                  fields) [] [] [] of
                          Inl e \<Rightarrow> Inl e
                        | Inr (subattr_schemata, name_mapping, required_attrs) \<Rightarrow>
                            Inr (NlAttrSchema subattr_schemata ids required_attrs
                                   name_mapping)))))"
  by pat_completeness auto
termination
proof (relation "measure (\<lambda>(cls, sp, ids). 2 * size sp + spec_rank sp)", goal_cases)
  case 1
  show ?case by simp
next
  case (2 spec ids n p t st r x2 subelem_spec cls)
  then show ?case
    by (cases x2; cases t) (simp_all add: spec_rank_def split: option.splits)
next
  case (3 spec ids n p t st r x2 subelem_spec cls)
  then show ?case
    by (cases x2; cases t) (simp_all add: spec_rank_def split: option.splits)
next
  case (4 spec ids spec' fields names cp cp' field_spec cls)
  from 4 have "size field_spec < size spec'"
    using spec_fields_size by blast
  moreover from 4(1) have "size spec' \<le> size spec"
    by (auto split: spec.splits option.splits)
  moreover have "spec_rank field_spec \<le> 1"
    by (simp add: spec_rank_def split: spec.splits option.splits)
  ultimately show ?case
    by simp
qed

section \<open>Vocabulary of the properties\<close>

subsection \<open>Integer types and byte order\<close>

text \<open>
  The bytes of a packed integer in the order of their significance, least first: as
  they stand on a little-endian host, reversed on a big-endian one.
\<close>

definition significance_order :: "byteorder \<Rightarrow> bytes \<Rightarrow> bytes" where
  "significance_order bo b = (case bo of LittleEndian \<Rightarrow> b | BigEndian \<Rightarrow> rev b)"

text \<open>
  The integer type names with the signedness and the width in bits that each name
  declares, and the values such a type can represent.
\<close>

definition declared_int_types :: "(string \<times> bool \<times> nat) list" where
  "declared_int_types =
     [(''u8'', False, 8), (''u16'', False, 16), (''s16'', True, 16), (''u32'', False, 32),
      (''u64'', False, 64)]"

definition representable :: "bool \<Rightarrow> nat \<Rightarrow> int \<Rightarrow> bool" where
  "representable sg bits v =
     (if sg then - (2 ^ (bits - 1)) \<le> v \<and> v < 2 ^ (bits - 1) else 0 \<le> v \<and> v < 2 ^ bits)"

subsection \<open>Attribute streams\<close>

text \<open>
  The stream of attributes in the words of the wire format: rounding up to a multiple
  of four, the two header fields at an offset, the offset after a chain of
  attributes, and the attributes that lie one after the other from an offset, each
  with a complete header, a non-zero length field and the payload sliced from
  \<open>offset + 4\<close> to \<open>offset + length\<close>.
\<close>

definition align4 :: "nat \<Rightarrow> nat" where
  "align4 n = (n + 3) div 4 * 4"

definition hdr_length :: "byteorder \<Rightarrow> bytes \<Rightarrow> nat \<Rightarrow> nat" where
  "hdr_length bo data off = native_value bo (py_slice data off (off + 2))"

definition hdr_type :: "byteorder \<Rightarrow> bytes \<Rightarrow> nat \<Rightarrow> nat" where
  "hdr_type bo data off = native_value bo (py_slice data (off + 2) (off + 4))"

fun chain_end :: "nat \<Rightarrow> GNLAttribute list \<Rightarrow> nat" where
  "chain_end off [] = off"
| "chain_end off (a # as) = chain_end (off + align4 (alength a)) as"

fun tlvs_from :: "byteorder \<Rightarrow> bytes \<Rightarrow> nat \<Rightarrow> GNLAttribute list \<Rightarrow> bool" where
  "tlvs_from bo data off [] = True"
| "tlvs_from bo data off (a # as) =
     (off + 4 \<le> length data
      \<and> hdr_length bo data off = alength a
      \<and> hdr_type bo data off = atype a
      \<and> alength a \<noteq> 0
      \<and> adata a = py_slice data (off + 4) (off + alength a)
      \<and> tlvs_from bo data (off + align4 (alength a)) as)"

text \<open>
  One attribute on the wire: the header with the length field \<open>4 + len(payload)\<close> and
  the type, the payload, and zero bytes up to the next multiple of four.
\<close>

fun tlv_bytes :: "byteorder \<Rightarrow> nat \<times> bytes \<Rightarrow> bytes" where
  "tlv_bytes bo (t, p) =
     native_bytes bo 2 (4 + length p) @ native_bytes bo 2 t @ p
     @ replicate (align4 (4 + length p) - (4 + length p)) 0"

fun tlv_attr :: "nat \<times> bytes \<Rightarrow> GNLAttribute" where
  "tlv_attr (t, p) = GNLAttribute (4 + length p) t p"

fun tlv_fits :: "nat \<times> bytes \<Rightarrow> bool" where
  "tlv_fits (t, p) = (t < 65536 \<and> 4 + length p < 65536)"

text \<open>
  The layout of a buffer from an offset, for the attributes (type, payload) it holds:
  each starts at a multiple of four, its length field is \<open>4 + len(payload)\<close>, the payload
  follows the header, the bytes from the end of the payload to the next multiple of
  four are zero, the next attribute starts there, and the last one ends the buffer.
\<close>

fun layout_from :: "byteorder \<Rightarrow> bytes \<Rightarrow> nat \<Rightarrow> (nat \<times> bytes) list \<Rightarrow> bool" where
  "layout_from bo b off [] = (off = length b)"
| "layout_from bo b off ((t, p) # rest) =
     (off mod 4 = 0
      \<and> off + 4 \<le> length b
      \<and> hdr_length bo b off = 4 + length p
      \<and> hdr_type bo b off = t
      \<and> py_slice b (off + 4) (off + 4 + length p) = p
      \<and> align4 (off + 4 + length p) \<le> length b
      \<and> py_slice b (off + 4 + length p) (align4 (off + 4 + length p))
           = replicate (align4 (off + 4 + length p) - (off + 4 + length p)) 0
      \<and> layout_from bo b (align4 (off + 4 + length p)) rest)"

subsection \<open>Items, attributes and children\<close>

text \<open>
  The items that \<open>build\<close> iterates over: the positional mapping's, or the keyword
  values under their symbolic names.
\<close>

definition given_items ::
  "(string \<times> string) list \<Rightarrow> value \<Rightarrow> (string \<times> value) list \<Rightarrow> (string \<times> value) list option"
  where
  "given_items name_mapping attr_values kwargs =
     (if kwargs = [] then (case attr_values of VMapping items \<Rightarrow> Some items | _ \<Rightarrow> None)
      else (case translate_kwargs name_mapping kwargs [] of
              Inr items \<Rightarrow> Some items
            | Inl e \<Rightarrow> None))"

text \<open>
  How one item of the value tree was built into one attribute: the id table gives
  the attribute's type for the name, and the payload is what the child codec builds
  from the value.
\<close>

fun built_as ::
  "ids \<Rightarrow> (string \<times> builder) list \<Rightarrow> string \<times> value \<Rightarrow> nat \<times> bytes \<Rightarrow> bool" where
  "built_as ids builders (name, val) (t, p) =
     (map_of ids name = Some (int t)
      \<and> (case map_of builders name of Some build_sub \<Rightarrow> build_sub val = Inr p | None \<Rightarrow> False))"

text \<open>
  How one attribute is parsed back into one item: the search finds the child of
  that name, and the child's parser returns the value without a warning.
\<close>

fun parsed_as ::
  "ids \<Rightarrow> (string \<times> parser) list \<Rightarrow> string \<times> value \<Rightarrow> nat \<times> bytes \<Rightarrow> bool" where
  "parsed_as ids parsers (name, val) (t, p) =
     (case find_attr parsers ids t of
        Inr (Some (n, parse_sub)) \<Rightarrow> n = name \<and> parse_sub p = Inr (val, [])
      | _ \<Rightarrow> False)"

text \<open>
  The child of the scope that an attribute type denotes: the first child, in
  declaration order, whose name the id table maps to that number.  A type is declared
  when there is one.
\<close>

definition child_of :: "(string \<times> 'p) list \<Rightarrow> ids \<Rightarrow> nat \<Rightarrow> (string \<times> 'p) option" where
  "child_of children ids t = find (\<lambda>(n, c). map_of ids n = Some (int t)) children"

definition declared :: "(string \<times> 'p) list \<Rightarrow> ids \<Rightarrow> nat \<Rightarrow> bool" where
  "declared children ids t = (child_of children ids t \<noteq> None)"

text \<open>The outcome of a \<open>parse\<close> without the warnings: the value or the exception.\<close>

fun outcome :: "error + ('a \<times> warning list) \<Rightarrow> error + 'a" where
  "outcome (Inl e) = Inl e"
| "outcome (Inr (x, ws)) = Inr x"

subsection \<open>Well-formed id tables and typed value trees\<close>

text \<open>
  The well-formedness the id table needs in a scope: every child's name has an id,
  and different names have different ids.
\<close>

definition scope_ok :: "string list \<Rightarrow> ids \<Rightarrow> bool" where
  "scope_ok names ids =
     (list_all (\<lambda>n. map_of ids n \<noteq> None) names
      \<and> distinct (map (map_of ids) (remdups names)))"

primrec ids_ok :: "schema \<Rightarrow> bool" where
  "ids_ok (NlAttrSchemaInt fmt) = True"
| "ids_ok NlAttrSchemaStr = True"
| "ids_ok NlAttrSchemaBytes = True"
| "ids_ok (NlAttrSchemaList subelem_schema ids) = ids_ok subelem_schema"
| "ids_ok (NlAttrSchemaArray subelem_schema ids) = ids_ok subelem_schema"
| "ids_ok (NlAttrSchema subattr_schemata ids required_attrs name_mapping) =
     (scope_ok (map fst subattr_schemata) ids
      \<and> list_all (\<lambda>(n, ok). ok) (map (map_prod id ids_ok) subattr_schemata))"

text \<open>Every array's element schema has a \<open>size\<close>, as the array's constructor demands.\<close>

primrec arrays_sized :: "schema \<Rightarrow> bool" where
  "arrays_sized (NlAttrSchemaInt fmt) = True"
| "arrays_sized NlAttrSchemaStr = True"
| "arrays_sized NlAttrSchemaBytes = True"
| "arrays_sized (NlAttrSchemaList subelem_schema ids) = arrays_sized subelem_schema"
| "arrays_sized (NlAttrSchemaArray subelem_schema ids) =
     (schema_size subelem_schema \<noteq> None \<and> arrays_sized subelem_schema)"
| "arrays_sized (NlAttrSchema subattr_schemata ids required_attrs name_mapping) =
     list_all (\<lambda>(n, ok). ok) (map (map_prod id arrays_sized) subattr_schemata)"

text \<open>
  A value tree of the schema's types: an \<open>int\<close> for an integer codec, a \<open>str\<close> for a
  string, \<open>bytes\<close> for a byte blob, a \<open>list\<close> of element values for a list or an
  array, and for an attribute set a mapping (with each key once) from names of
  children to values of the child's type.
\<close>

primrec conforms :: "schema \<Rightarrow> value \<Rightarrow> bool" where
  "conforms (NlAttrSchemaInt fmt) = (\<lambda>v. case v of VInt n \<Rightarrow> True | _ \<Rightarrow> False)"
| "conforms NlAttrSchemaStr = (\<lambda>v. case v of VStr s \<Rightarrow> True | _ \<Rightarrow> False)"
| "conforms NlAttrSchemaBytes = (\<lambda>v. case v of VBytes b \<Rightarrow> True | _ \<Rightarrow> False)"
| "conforms (NlAttrSchemaList subelem_schema ids) =
     (\<lambda>v. case v of VList xs \<Rightarrow> list_all (conforms subelem_schema) xs | _ \<Rightarrow> False)"
| "conforms (NlAttrSchemaArray subelem_schema ids) =
     (\<lambda>v. case v of VList xs \<Rightarrow> list_all (conforms subelem_schema) xs | _ \<Rightarrow> False)"
| "conforms (NlAttrSchema subattr_schemata ids required_attrs name_mapping) =
     (\<lambda>v. case v of
             VMapping items \<Rightarrow>
               distinct (map fst items)
               \<and> list_all (\<lambda>(name, val).
                     case map_of (map (map_prod id conforms) subattr_schemata) name of
                       Some ok \<Rightarrow> ok val
                     | None \<Rightarrow> False) items
           | _ \<Rightarrow> False)"

subsection \<open>Example descriptions\<close>

text \<open>
  A one-field description used in the examples: \<open>ATTR_FOO\<close>, id 1, an unsigned
  byte, with the short name \<open>foo\<close>.
\<close>

definition attr_foo_spec :: spec where
  "attr_foo_spec = List [Dict (Some ''ATTR_FOO'') (Some ''foo'') (Some (Str ''u8'')) None False]"

definition attr_foo_ids :: ids where
  "attr_foo_ids = [(''ATTR_FOO'', 1)]"

definition attr_foo_schema :: schema where
  "attr_foo_schema =
     NlAttrSchema [(''ATTR_FOO'', NlAttrSchemaInt Fmt_B)] attr_foo_ids [] [(''foo'', ''ATTR_FOO'')]"

text \<open>
  A two-field description used in the examples: \<open>ATTR_X\<close>, id 1, type \<open>u32\<close>, and
  \<open>ATTR_NAME\<close>, id 2, type \<open>str\<close>.
\<close>

definition attr_pair_spec :: spec where
  "attr_pair_spec =
     List [Dict (Some ''ATTR_X'') None (Some (Str ''u32'')) None False,
           Dict (Some ''ATTR_NAME'') None (Some (Str ''str'')) None False]"

definition attr_pair_ids :: ids where
  "attr_pair_ids = [(''ATTR_X'', 1), (''ATTR_NAME'', 2)]"

definition attr_pair_schema :: schema where
  "attr_pair_schema =
     NlAttrSchema [(''ATTR_X'', NlAttrSchemaInt Fmt_I), (''ATTR_NAME'', NlAttrSchemaStr)]
       attr_pair_ids [] [(''x'', ''ATTR_X''), (''name'', ''ATTR_NAME'')]"

definition attr_pair_value :: "(string \<times> value) list" where
  "attr_pair_value = [(''ATTR_X'', VInt 0xDEADBEEF), (''ATTR_NAME'', VStr [104, 105])]"

definition attr_pair_bytes :: bytes where
  "attr_pair_bytes =
     [8, 0, 1, 0, 0xEF, 0xBE, 0xAD, 0xDE, 7, 0, 2, 0, 104, 105, 0, 0]"

section \<open>Packing and unpacking integers\<close>


lemma le_bytes_length [simp]: "length (le_bytes w n) = w"
  by (induction w arbitrary: n) simp_all

lemma le_value_le_bytes: "le_value (le_bytes w n) = n mod 256 ^ w"
proof (induction w arbitrary: n)
  case 0
  show ?case by simp
next
  case (Suc w)
  have "unat (of_nat (n mod 256) :: byte) = n mod 256"
    by (simp add: unat_of_nat)
  then show ?case
    by (simp add: Suc mod_mult2_eq)
qed

lemma le_bytes_nth: "i < w \<Longrightarrow> unat (le_bytes w n ! i) = n div 256 ^ i mod 256"
proof (induction w arbitrary: n i)
  case 0
  then show ?case by simp
next
  case (Suc w)
  show ?case
  proof (cases i)
    case 0
    then show ?thesis by (simp add: unat_of_nat)
  next
    case (Suc j)
    with Suc.prems Suc.IH [of j "n div 256"] show ?thesis
      by (simp add: div_mult2_eq)
  qed
qed

lemma native_bytes_length [simp]: "length (native_bytes bo w n) = w"
  by (cases bo) (simp_all add: native_bytes_def)

lemma native_value_bytes: "native_value bo (native_bytes bo w n) = n mod 256 ^ w"
  by (cases bo) (simp_all add: native_bytes_def native_value_def le_value_le_bytes)

lemma native_bytes_nth:
  "i < w \<Longrightarrow> unat (significance_order bo (native_bytes bo w n) ! i) = n div 256 ^ i mod 256"
  by (cases bo) (simp_all add: native_bytes_def significance_order_def le_bytes_nth)

lemma struct_pack_unpack:
  assumes "struct_pack bo f v = Inr b"
  shows "length b = calcsize f" and "struct_unpack bo f b = Inr v"
proof -
  from assms have rng: "fmt_min f \<le> v" "v \<le> fmt_max f"
    and b: "b = native_bytes bo (calcsize f) (nat (v mod 2 ^ (8 * calcsize f)))"
    by (auto simp: struct_pack_def split: if_splits)
  show "length b = calcsize f"
    by (simp add: b)
  have pow: "(256::nat) ^ calcsize f = 2 ^ (8 * calcsize f)"
    by (cases f) simp_all
  have "native_value bo b = nat (v mod 2 ^ (8 * calcsize f))"
    unfolding b native_value_bytes pow
    by (cases f) (simp_all add: nat_mod_distrib)
  moreover have "(if fmt_signed f \<and> 2 ^ (8 * calcsize f - 1) \<le> v mod 2 ^ (8 * calcsize f)
                  then v mod 2 ^ (8 * calcsize f) - 2 ^ (8 * calcsize f)
                  else v mod 2 ^ (8 * calcsize f)) = v"
  proof (cases "fmt_signed f")
    case True
    then have "f = Fmt_h"
      by (cases f) simp_all
    with rng have "- 32768 \<le> v" "v \<le> 32767"
      by (simp_all add: fmt_min_def fmt_max_def)
    then have "(if 32768 \<le> v mod 65536 then v mod 65536 - 65536 else v mod 65536) = v"
    proof (cases "v < 0")
      case True
      have "v mod 65536 = (v + 65536) mod 65536"
        by simp
      also from True \<open>- 32768 \<le> v\<close> have "\<dots> = v + 65536"
        by (intro mod_pos_pos_trivial) simp_all
      finally show ?thesis
        using True \<open>- 32768 \<le> v\<close> by simp
    next
      case False
      with \<open>v \<le> 32767\<close> have "v mod 65536 = v"
        by (intro mod_pos_pos_trivial) simp_all
      with \<open>v \<le> 32767\<close> show ?thesis
        by simp
    qed
    with \<open>f = Fmt_h\<close> show ?thesis
      by (simp split: if_splits)
  next
    case False
    with rng have "0 \<le> v" "v < 2 ^ (8 * calcsize f)"
      by (simp_all add: fmt_min_def fmt_max_def)
    then have "v mod 2 ^ (8 * calcsize f) = v"
      by (rule mod_pos_pos_trivial)
    with False show ?thesis
      by simp
  qed
  ultimately show "struct_unpack bo f b = Inr v"
    by (simp add: struct_unpack_def b Let_def)
qed

section \<open>Decoding ASCII text\<close>


lemma utf8_cons_not_Nil: "utf8_cons c r \<noteq> Inr []"
  by (simp add: utf8_cons_def split: sum.split)

lemma utf8_decode_Cons_not_Nil: "utf8_decode (b0 # bs) \<noteq> Inr []"
  by (subst utf8_decode.simps(2)) (simp add: utf8_cons_not_Nil split: list.split)

lemma utf8_decode_Nil_iff: "utf8_decode b = Inr [] \<longleftrightarrow> b = []"
  by (cases b) (simp_all add: utf8_decode_Cons_not_Nil)

lemma utf8_decode_low: "b0 < 0x80 \<Longrightarrow> utf8_decode (b0 # bs) = utf8_cons (unat b0) (utf8_decode bs)"
  by (subst utf8_decode.simps(2)) simp

lemma utf8_decode_ascii:
  "list_all (\<lambda>c. c < 128) s \<Longrightarrow> utf8_decode (map of_nat s) = Inr s"
proof (induction s)
  case Nil
  show ?case by simp
next
  case (Cons c s)
  then have c: "c < 128" by simp
  then have "(of_nat c :: byte) < 0x80"
    by (simp add: word_less_nat_alt unat_of_nat)
  moreover from c have "unat (of_nat c :: byte) = c"
    by (simp add: unat_of_nat)
  moreover from Cons have "utf8_decode (map of_nat s) = Inr s"
    by simp
  ultimately show ?case
    by (simp add: utf8_decode_low utf8_cons_def)
qed

section \<open>The attribute splitter\<close>


declare parse_generic_attributes_loop.simps [simp del]

lemma slice_header:
  assumes "off + 4 \<le> length data"
  shows "unpack_HH bo (py_slice data off (off + attrib_hdr_len)) =
           Inr (hdr_length bo data off, hdr_type bo data off)"
proof -
  have "take 2 (take 4 (drop off data)) = take 2 (drop off data)"
    by simp
  moreover have "drop 2 (take 4 (drop off data)) = take 2 (drop (off + 2) data)"
    by (simp add: drop_take add.commute)
  ultimately show ?thesis
    using assms
    by (simp add: unpack_HH_def py_slice_def attrib_hdr_len_def hdr_length_def hdr_type_def)
qed

lemma slice_header_short:
  assumes "off < length data" and "length data < off + 4"
  shows "unpack_HH bo (py_slice data off (off + attrib_hdr_len)) = Inl StructError"
  using assms by (simp add: unpack_HH_def py_slice_def attrib_hdr_len_def)

lemma hdr_length_small: "hdr_length bo data off < 65536"
proof -
  have "hdr_length bo data off < 256 ^ length (py_slice data off (off + 2))"
    unfolding hdr_length_def by (rule native_value_lt)
  also have "\<dots> \<le> 256 ^ 2"
    by (intro power_increasing) (simp_all add: py_slice_def)
  finally show ?thesis by simp
qed

lemma align_hdr_length: "align (hdr_length bo data off) = align4 (hdr_length bo data off)"
  by (simp add: align_small hdr_length_small align4_def)

lemma align_attrib_hdr_len: "align attrib_hdr_len = 4"
  by (simp add: align_small attrib_hdr_len_def)

lemma loop_step:
  assumes "tlvs_from bo data off [a]"
  shows "parse_generic_attributes_loop bo data off acc =
         parse_generic_attributes_loop bo data (off + align4 (alength a)) (acc @ [a])"
proof -
  from assms have full: "off + 4 \<le> length data" and l: "hdr_length bo data off = alength a"
    and t: "hdr_type bo data off = atype a" and nz: "alength a \<noteq> 0"
    and d: "py_slice data (off + 4) (off + alength a) = adata a"
    by simp_all
  from full have lt: "off < length data" by simp
  have al: "align (alength a) = align4 (alength a)"
    using align_hdr_length [of bo data off] by (simp add: l)
  show ?thesis
    by (subst parse_generic_attributes_loop.simps)
       (simp add: lt slice_header [OF full] l t nz d al align_attrib_hdr_len Let_def)
qed

lemma loop_zero:
  assumes "off + 4 \<le> length data" and "hdr_length bo data off = 0"
  shows "parse_generic_attributes_loop bo data off acc = Inl AssertionError"
proof -
  from assms(1) have "off < length data" by simp
  with assms show ?thesis
    by (subst parse_generic_attributes_loop.simps) (simp add: slice_header Let_def)
qed

lemma loop_short:
  assumes "off < length data" and "length data < off + 4"
  shows "parse_generic_attributes_loop bo data off acc = Inl StructError"
  using assms
  by (subst parse_generic_attributes_loop.simps) (simp add: slice_header_short)

lemma loop_done:
  assumes "length data \<le> off"
  shows "parse_generic_attributes_loop bo data off acc = Inr acc"
  using assms
  by (subst parse_generic_attributes_loop.simps) simp

lemma loop_chain:
  "tlvs_from bo data off attrs \<Longrightarrow>
   parse_generic_attributes_loop bo data off acc =
   parse_generic_attributes_loop bo data (chain_end off attrs) (acc @ attrs)"
proof (induction attrs arbitrary: off acc)
  case Nil
  show ?case by simp
next
  case (Cons a as)
  from Cons.prems have "tlvs_from bo data off [a]"
    and rest: "tlvs_from bo data (off + align4 (alength a)) as"
    by simp_all
  then have "parse_generic_attributes_loop bo data off acc =
        parse_generic_attributes_loop bo data (off + align4 (alength a)) (acc @ [a])"
    by (simp only: loop_step)
  also have "\<dots> =
      parse_generic_attributes_loop bo data (chain_end (off + align4 (alength a)) as)
        ((acc @ [a]) @ as)"
    by (rule Cons.IH [OF rest])
  finally show ?case by simp
qed

lemma align4_ge: "n \<le> align4 n"
  by (simp add: align4_def)

lemma loop_sound:
  "parse_generic_attributes_loop bo data off acc = Inr res \<Longrightarrow>
   \<exists>attrs. res = acc @ attrs \<and> tlvs_from bo data off attrs \<and> length data \<le> chain_end off attrs"
proof (induction "length data - off" arbitrary: off acc rule: less_induct)
  case less
  show ?case
  proof (cases "off < length data")
    case False
    with less.prems have "res = acc"
      by (simp add: loop_done)
    with False show ?thesis
      by (intro exI [of _ "[]"]) simp
  next
    case True
    show ?thesis
    proof (cases "length data < off + 4")
      case short: True
      with True less.prems show ?thesis
        by (simp add: loop_short)
    next
      case False
      then have full: "off + 4 \<le> length data" by simp
      define a where "a = GNLAttribute (hdr_length bo data off) (hdr_type bo data off)
                             (py_slice data (off + 4) (off + hdr_length bo data off))"
      show ?thesis
      proof (cases "hdr_length bo data off = 0")
        case True
        with full less.prems show ?thesis
          by (simp add: loop_zero)
      next
        case nz: False
        with full have one: "tlvs_from bo data off [a]"
          by (simp add: a_def)
        from nz have "0 < align4 (alength a)"
          using align4_ge [of "alength a"] by (simp add: a_def)
        with True have smaller: "length data - (off + align4 (alength a)) < length data - off"
          by simp
        from less.prems have "parse_generic_attributes_loop bo data (off + align4 (alength a))
            (acc @ [a]) = Inr res"
          by (simp only: loop_step [OF one])
        from less.hyps [OF smaller this]
        obtain attrs where "res = (acc @ [a]) @ attrs"
          and "tlvs_from bo data (off + align4 (alength a)) attrs"
          and "length data \<le> chain_end (off + align4 (alength a)) attrs"
          by blast
        with one show ?thesis
          by (intro exI [of _ "a # attrs"]) simp
      qed
    qed
  qed
qed



lemma splitter_accepts:
  "tlvs_from bo data 0 attrs \<Longrightarrow> length data \<le> chain_end 0 attrs
   \<Longrightarrow> parse_generic_attributes bo data = Inr attrs"
  by (simp add: parse_generic_attributes_def loop_chain [of bo data 0 attrs "[]"] loop_done)

lemma le_header_eval:
  "hdr_length LittleEndian (a # b # rest) 0 = unat a + 256 * unat b"
  "hdr_type LittleEndian (a # b # c # d # rest) 0 = unat c + 256 * unat d"
  by (simp_all add: hdr_length_def hdr_type_def py_slice_def native_value_def)

text \<open>
  The splitter accepts a header whose length field is smaller than the header, and
  one whose aligned length runs past the end of the buffer; in both cases the payload
  is empty.
\<close>

theorem splitter_lenient_counterexample:
  "parse_generic_attributes LittleEndian [2, 0, 1, 0] = Inr [GNLAttribute 2 1 []]
   \<and> parse_generic_attributes LittleEndian [8, 0, 1, 0] = Inr [GNLAttribute 8 1 []]"
  by (simp add: splitter_accepts le_header_eval py_slice_def align4_def)

text \<open>
  C4, as the code has it.  The splitter returns exactly the attributes that lie one
  after the other from offset 0, each with a complete four-byte header and a non-zero
  length field, its payload the slice from \<open>offset + 4\<close> to \<open>offset + length\<close>
  (clipped to the buffer), the next offset being the length rounded up to a multiple
  of four, until the offset reaches or passes the end of the buffer.  It raises
  \<open>struct.error\<close> when fewer than four bytes remain at such an offset, and
  \<open>AssertionError\<close> when the length field there is zero.  A length field of 1, 2
  or 3 and a length that overshoots the buffer are accepted.
\<close>

theorem splitter_characterisation:
  "(parse_generic_attributes bo data = Inr attrs
      \<longleftrightarrow> tlvs_from bo data 0 attrs \<and> length data \<le> chain_end 0 attrs)
   \<and> (\<forall>pre. tlvs_from bo data 0 pre \<and> chain_end 0 pre < length data
          \<and> length data < chain_end 0 pre + 4
        \<longrightarrow> parse_generic_attributes bo data = Inl StructError)
   \<and> (\<forall>pre. tlvs_from bo data 0 pre \<and> chain_end 0 pre + 4 \<le> length data
          \<and> hdr_length bo data (chain_end 0 pre) = 0
        \<longrightarrow> parse_generic_attributes bo data = Inl AssertionError)"
proof (intro conjI allI impI iffI)
  assume "parse_generic_attributes bo data = Inr attrs"
  then show "tlvs_from bo data 0 attrs" and "length data \<le> chain_end 0 attrs"
    using loop_sound [of bo data 0 "[]" attrs]
    by (simp_all add: parse_generic_attributes_def)
next
  assume "tlvs_from bo data 0 attrs \<and> length data \<le> chain_end 0 attrs"
  then show "parse_generic_attributes bo data = Inr attrs"
    by (simp add: parse_generic_attributes_def loop_chain [of bo data 0 attrs "[]"] loop_done)
next
  fix pre
  assume "tlvs_from bo data 0 pre \<and> chain_end 0 pre < length data
          \<and> length data < chain_end 0 pre + 4"
  then show "parse_generic_attributes bo data = Inl StructError"
    by (simp add: parse_generic_attributes_def loop_chain [of bo data 0 pre "[]"] loop_short)
next
  fix pre
  assume "tlvs_from bo data 0 pre \<and> chain_end 0 pre + 4 \<le> length data
          \<and> hdr_length bo data (chain_end 0 pre) = 0"
  then show "parse_generic_attributes bo data = Inl AssertionError"
    by (simp add: parse_generic_attributes_def loop_chain [of bo data 0 pre "[]"] loop_zero)
qed

lemma hdr_at_8:
  "hdr_length LittleEndian (x0 # x1 # x2 # x3 # x4 # x5 # x6 # x7 # a # b # rest) 8
     = unat a + 256 * unat b"
  by (simp add: hdr_length_def py_slice_def native_value_def)

theorem splitter_characterisation_witness:
  "parse_generic_attributes LittleEndian [8, 0, 1, 0, 1, 2, 3, 4] = Inr [GNLAttribute 8 1 [1, 2, 3, 4]]
   \<and> parse_generic_attributes LittleEndian [8, 0, 1, 0, 1, 2, 3, 4, 9] = Inl StructError
   \<and> parse_generic_attributes LittleEndian [8, 0, 1, 0, 1, 2, 3, 4, 0, 0, 1, 0] = Inl AssertionError"
proof (intro conjI)
  show "parse_generic_attributes LittleEndian [8, 0, 1, 0, 1, 2, 3, 4] = Inr [GNLAttribute 8 1 [1, 2, 3, 4]]"
    using splitter_characterisation [of LittleEndian "[8, 0, 1, 0, 1, 2, 3, 4]" "[GNLAttribute 8 1 [1, 2, 3, 4]]"]
    by (simp add: le_header_eval py_slice_def align4_def)
  have "(tlvs_from LittleEndian [8, 0, 1, 0, 1, 2, 3, 4, 9] 0 [GNLAttribute 8 1 [1, 2, 3, 4]]
          \<and> chain_end 0 [GNLAttribute 8 1 [1, 2, 3, 4]] < length [8, 0, 1, 0, 1, 2, 3, 4, 9 :: byte]
          \<and> length [8, 0, 1, 0, 1, 2, 3, 4, 9 :: byte] < chain_end 0 [GNLAttribute 8 1 [1, 2, 3, 4]] + 4)"
    by (simp add: le_header_eval py_slice_def align4_def)
  then show "parse_generic_attributes LittleEndian [8, 0, 1, 0, 1, 2, 3, 4, 9] = Inl StructError"
    using splitter_characterisation [of LittleEndian "[8, 0, 1, 0, 1, 2, 3, 4, 9]"]
    by blast
  have "(tlvs_from LittleEndian [8, 0, 1, 0, 1, 2, 3, 4, 0, 0, 1, 0] 0 [GNLAttribute 8 1 [1, 2, 3, 4]]
          \<and> chain_end 0 [GNLAttribute 8 1 [1, 2, 3, 4]] + 4 \<le> length [8, 0, 1, 0, 1, 2, 3, 4, 0, 0, 1, 0 :: byte]
          \<and> hdr_length LittleEndian [8, 0, 1, 0, 1, 2, 3, 4, 0, 0, 1, 0] (chain_end 0 [GNLAttribute 8 1 [1, 2, 3, 4]]) = 0)"
    by (simp add: le_header_eval hdr_at_8 py_slice_def align4_def)
  then show "parse_generic_attributes LittleEndian [8, 0, 1, 0, 1, 2, 3, 4, 0, 0, 1, 0] = Inl AssertionError"
    using splitter_characterisation [of LittleEndian "[8, 0, 1, 0, 1, 2, 3, 4, 0, 0, 1, 0]"]
    by blast
qed

section \<open>The integer and string codecs\<close>

lemma representable_fmt:
  "representable (fmt_signed fmt) (8 * calcsize fmt) v \<longleftrightarrow> fmt_min fmt \<le> v \<and> v \<le> fmt_max fmt"
  by (cases fmt) (auto simp: representable_def fmt_min_def fmt_max_def)

lemma int_codec_fmt:
  "(\<not> representable (fmt_signed fmt) (8 * calcsize fmt) v
      \<longrightarrow> build bo (NlAttrSchemaInt fmt) (VInt v) = Inl StructError)
   \<and> (representable (fmt_signed fmt) (8 * calcsize fmt) v
      \<longrightarrow> (\<exists>b. build bo (NlAttrSchemaInt fmt) (VInt v) = Inr b
             \<and> 8 * length b = 8 * calcsize fmt
             \<and> (\<forall>i<length b. unat (significance_order bo b ! i)
                    = nat (v mod 2 ^ (8 * calcsize fmt)) div 256 ^ i mod 256)
             \<and> parse bo (NlAttrSchemaInt fmt) b = Inr (VInt v, [])))"
proof (intro conjI impI)
  assume "\<not> representable (fmt_signed fmt) (8 * calcsize fmt) v"
  then show "build bo (NlAttrSchemaInt fmt) (VInt v) = Inl StructError"
    by (simp add: representable_fmt NlAttrSchemaInt_build_def struct_pack_def)
next
  assume "representable (fmt_signed fmt) (8 * calcsize fmt) v"
  then have rng: "fmt_min fmt \<le> v \<and> v \<le> fmt_max fmt"
    by (simp add: representable_fmt)
  define b where "b = native_bytes bo (calcsize fmt) (nat (v mod 2 ^ (8 * calcsize fmt)))"
  from rng have pack: "struct_pack bo fmt v = Inr b"
    by (simp add: struct_pack_def b_def)
  have "build bo (NlAttrSchemaInt fmt) (VInt v) = Inr b"
    by (simp add: NlAttrSchemaInt_build_def pack)
  moreover have "8 * length b = 8 * calcsize fmt"
    by (simp add: b_def)
  moreover have "\<forall>i<length b. unat (significance_order bo b ! i)
                    = nat (v mod 2 ^ (8 * calcsize fmt)) div 256 ^ i mod 256"
    by (simp add: b_def native_bytes_nth)
  moreover have "parse bo (NlAttrSchemaInt fmt) b = Inr (VInt v, [])"
    by (simp add: NlAttrSchemaInt_parse_def struct_pack_unpack(2) [OF pack])
  ultimately show "\<exists>b. build bo (NlAttrSchemaInt fmt) (VInt v) = Inr b
             \<and> 8 * length b = 8 * calcsize fmt
             \<and> (\<forall>i<length b. unat (significance_order bo b ! i)
                    = nat (v mod 2 ^ (8 * calcsize fmt)) div 256 ^ i mod 256)
             \<and> parse bo (NlAttrSchemaInt fmt) b = Inr (VInt v, [])"
    by blast
qed

lemma declared_int_type_fmt:
  assumes "map_of declared_int_types t = Some (sg, bits)"
  shows "\<exists>fmt. map_of int_type_to_fmt t = Some fmt \<and> map_of schema_classes t = Some Cls_NlAttrSchemaInt
           \<and> sg = fmt_signed fmt \<and> bits = 8 * calcsize fmt"
  using assms
  by (auto simp: declared_int_types_def int_type_to_fmt_def schema_classes_def split: if_splits)

text \<open>
  C9.  For each of the integer types \<open>u8\<close>, \<open>u16\<close>, \<open>s16\<close>, \<open>u32\<close>, \<open>u64\<close> the
  description compiles to an integer codec; building a value outside the range of the
  declared width and signedness raises \<open>struct.error\<close>; building a value inside it
  gives the bytes of the value in host byte order at the declared width, and parsing
  these bytes returns the value.
\<close>

theorem int_codec_range_checked_roundtrip:
  assumes "map_of declared_int_types t = Some (sg, bits)"
  shows "\<exists>fmt. get_schema_class (Dict n p (Some (Str t)) st r) = Inr Cls_NlAttrSchemaInt
     \<and> from_spec Cls_NlAttrSchemaInt (Dict n p (Some (Str t)) st r) ids = Inr (NlAttrSchemaInt fmt)
     \<and> (\<not> representable sg bits v \<longrightarrow> build bo (NlAttrSchemaInt fmt) (VInt v) = Inl StructError)
     \<and> (representable sg bits v \<longrightarrow>
          (\<exists>b. build bo (NlAttrSchemaInt fmt) (VInt v) = Inr b
             \<and> 8 * length b = bits
             \<and> (\<forall>i<length b. unat (significance_order bo b ! i)
                    = nat (v mod 2 ^ bits) div 256 ^ i mod 256)
             \<and> parse bo (NlAttrSchemaInt fmt) b = Inr (VInt v, [])))"
proof -
  from declared_int_type_fmt [OF assms] obtain fmt
    where fmt: "map_of int_type_to_fmt t = Some fmt"
      and cls: "map_of schema_classes t = Some Cls_NlAttrSchemaInt"
      and sg: "sg = fmt_signed fmt" and bits: "bits = 8 * calcsize fmt"
    by blast
  have "get_schema_class (Dict n p (Some (Str t)) st r) = Inr Cls_NlAttrSchemaInt"
    by (simp add: cls)
  moreover have "from_spec Cls_NlAttrSchemaInt (Dict n p (Some (Str t)) st r) ids
                   = Inr (NlAttrSchemaInt fmt)"
    by (simp add: fmt)
  ultimately show ?thesis
    using int_codec_fmt [of fmt v bo] unfolding sg bits by blast
qed

theorem int_codec_range_checked_roundtrip_witness:
  "\<exists>fmt. get_schema_class (Dict (Some ''ATTR_X'') None (Some (Str ''s16'')) None False)
            = Inr Cls_NlAttrSchemaInt
     \<and> from_spec Cls_NlAttrSchemaInt (Dict (Some ''ATTR_X'') None (Some (Str ''s16'')) None False)
          [(''ATTR_X'', 1)] = Inr (NlAttrSchemaInt fmt)
     \<and> build LittleEndian (NlAttrSchemaInt fmt) (VInt 40000) = Inl StructError
     \<and> (\<exists>b. build LittleEndian (NlAttrSchemaInt fmt) (VInt (- 2)) = Inr b
           \<and> 8 * length b = 16
           \<and> parse LittleEndian (NlAttrSchemaInt fmt) b = Inr (VInt (- 2), []))"
proof -
  have t: "map_of declared_int_types ''s16'' = Some (True, 16)"
    by (simp add: declared_int_types_def)
  have r1: "\<not> representable True 16 40000" and r2: "representable True 16 (- 2)"
    by (simp_all add: representable_def)
  from int_codec_range_checked_roundtrip [OF t, of "Some ''ATTR_X''" None None False
      "[(''ATTR_X'', 1)]" 40000 LittleEndian]
    int_codec_range_checked_roundtrip [OF t, of "Some ''ATTR_X''" None None False
      "[(''ATTR_X'', 1)]" "- 2" LittleEndian]
  show ?thesis
    using r1 r2 by (simp add: int_type_to_fmt_def) blast
qed

text \<open>
  C10.  The string codec's \<open>parse\<close> raises \<open>IndexError\<close> on the empty payload.  It
  returns a value only for a non-empty payload that decodes, and then the decoded text
  without its last character if that is NUL (only that one).
\<close>

theorem str_parse_empty_payload_raises:
  "parse bo NlAttrSchemaStr [] = Inl IndexError
   \<and> (\<forall>data v ws. parse bo NlAttrSchemaStr data = Inr (v, ws) \<longrightarrow>
         data \<noteq> [] \<and> ws = []
         \<and> (\<exists>s. utf8_decode data = Inr s \<and> s \<noteq> []
                \<and> v = VStr (if last s = 0 then butlast s else s)))
   \<and> (\<forall>data s. data \<noteq> [] \<and> utf8_decode data = Inr s \<longrightarrow>
         parse bo NlAttrSchemaStr data = Inr (VStr (if last s = 0 then butlast s else s), []))"
proof (intro conjI allI impI)
  show "parse bo NlAttrSchemaStr [] = Inl IndexError"
    by (simp add: NlAttrSchemaStr_parse_def)
next
  fix data v ws
  assume ok: "parse bo NlAttrSchemaStr data = Inr (v, ws)"
  then obtain s where s: "utf8_decode data = Inr s"
    by (cases "utf8_decode data") (simp_all add: NlAttrSchemaStr_parse_def)
  with ok have "s \<noteq> []"
    by (auto simp: NlAttrSchemaStr_parse_def)
  with s have "data \<noteq> []"
    by auto
  moreover from ok s \<open>s \<noteq> []\<close> have "ws = []" "v = VStr (if last s = 0 then butlast s else s)"
    by (auto simp: NlAttrSchemaStr_parse_def split: if_splits)
  ultimately show "data \<noteq> []" "ws = []"
    "\<exists>s. utf8_decode data = Inr s \<and> s \<noteq> [] \<and> v = VStr (if last s = 0 then butlast s else s)"
    using s \<open>s \<noteq> []\<close> by blast+
next
  fix data s
  assume "data \<noteq> [] \<and> utf8_decode data = Inr s"
  moreover then have "s \<noteq> []"
    using utf8_decode_Nil_iff [of data] by auto
  ultimately show "parse bo NlAttrSchemaStr data
      = Inr (VStr (if last s = 0 then butlast s else s), [])"
    by (simp add: NlAttrSchemaStr_parse_def)
qed

theorem str_parse_empty_payload_raises_witness:
  "parse LittleEndian NlAttrSchemaStr [104, 105, 0] = Inr (VStr [104, 105], [])
   \<and> parse LittleEndian NlAttrSchemaStr [] = Inl IndexError"
proof -
  have "utf8_decode [104, 105, 0] = Inr [104, 105, 0]"
    by (simp add: utf8_decode_low utf8_cons_def)
  with str_parse_empty_payload_raises [of LittleEndian] show ?thesis
    by (simp del: parse.simps)
qed


section \<open>Evaluation on concrete buffers\<close>

lemma le_bytes_numeral:
  "le_bytes (numeral k) n = of_nat (n mod 256) # le_bytes (pred_numeral k) (n div 256)"
  "le_bytes 1 n = [of_nat (n mod 256)]"
proof -
  have "le_bytes (Suc (pred_numeral k)) n
          = of_nat (n mod 256) # le_bytes (pred_numeral k) (n div 256)"
    by (rule le_bytes.simps)
  then show "le_bytes (numeral k) n = of_nat (n mod 256) # le_bytes (pred_numeral k) (n div 256)"
    by (simp only: numeral_eq_Suc [symmetric])
  have "le_bytes (Suc 0) n = [of_nat (n mod 256)]"
    by (simp only: le_bytes.simps)
  then show "le_bytes 1 n = [of_nat (n mod 256)]"
    by (simp only: One_nat_def)
qed

lemma replicate_numeral:
  "replicate (numeral k) x = x # replicate (pred_numeral k) x"
  by (simp add: numeral_eq_Suc)

lemma hdr_eval:
  "hdr_length bo data off = native_value bo (take 2 (drop off data))"
  "hdr_type bo data off = native_value bo (take 2 (drop (off + 2) data))"
  by (simp_all add: hdr_length_def hdr_type_def py_slice_def)

lemmas eval_wire = replicate_numeral hdr_eval align4_def
  py_slice_def align_small pad_def attrib_hdr_len_def pack_HH_def unpack_HH_def
  struct_pack_def struct_unpack_def fmt_min_def fmt_max_def native_bytes_def native_value_def
  le_bytes_numeral Let_def

lemmas eval_codecs =
  NlAttrSchemaInt_build_def NlAttrSchemaInt_parse_def NlAttrSchemaStr_build_def
  NlAttrSchemaStr_parse_def NlAttrSchemaBytes_build_def NlAttrSchemaBytes_parse_def
  NlAttrSchemaList_build_def NlAttrSchemaList_parse_def NlAttrSchemaArray_build_def
  NlAttrSchemaArray_parse_def NlAttrSchema_build_def NlAttrSchema_parse_def
  NlAttrSchema_parse_attrs_def build_kwargs_def
  NlAttrSchemaArray_parse_loop.simps list_setitem_def candidates_def encode_ascii_def
  utf8_decode_low utf8_cons_def

section \<open>Compiling descriptions\<close>

lemma attr_foo_compiles:
  "from_spec Cls_NlAttrSchema attr_foo_spec attr_foo_ids = Inr attr_foo_schema"
  by (simp add: attr_foo_spec_def attr_foo_schema_def schema_classes_def int_type_to_fmt_def
      endswith_underscore_def)

lemma from_spec_NlAttrSchema_shape:
  assumes "from_spec Cls_NlAttrSchema spec ids = Inr S"
  shows "\<exists>subattr_schemata required_attrs name_mapping.
           S = NlAttrSchema subattr_schemata ids required_attrs name_mapping"
  using assms
  by (auto simp: Let_def split: sum.splits prod.splits)

text \<open>
  C3.  The registry \<open>schema_classes\<close> has no class for the type \<open>flag\<close>: the
  description of the flag test (\<open>ATTR_FOO\<close>, id 1, type \<open>flag\<close>, short name \<open>foo\<close>)
  does not compile, \<open>from_spec\<close> raises \<open>KeyError\<close>.
\<close>

theorem flag_description_does_not_compile:
  "get_schema_class (Dict (Some ''ATTR_FOO'') (Some ''foo'') (Some (Str ''flag'')) None False)
     = Inl KeyError
   \<and> from_spec Cls_NlAttrSchema
        (List [Dict (Some ''ATTR_FOO'') (Some ''foo'') (Some (Str ''flag'')) None False])
        [(''ATTR_FOO'', 1)] = Inl KeyError"
  by (simp add: schema_classes_def int_type_to_fmt_def endswith_underscore_def)

text \<open>
  C5.  For the sibling names \<open>FOO\<close> and \<open>BAR\<close>, which share no prefix, \<open>from_spec\<close>
  appends an underscore to the empty common prefix and drops as many characters as
  that has from each name: the short names are \<open>oo\<close> and \<open>ar\<close>, not \<open>foo\<close> and \<open>bar\<close>.
\<close>

theorem short_names_lose_first_character:
  "from_spec Cls_NlAttrSchema
     (List [Dict (Some ''FOO'') None (Some (Str ''u8'')) None False,
            Dict (Some ''BAR'') None (Some (Str ''u8'')) None False])
     [(''FOO'', 1), (''BAR'', 2)]
   = Inr (NlAttrSchema [(''FOO'', NlAttrSchemaInt Fmt_B), (''BAR'', NlAttrSchemaInt Fmt_B)]
            [(''FOO'', 1), (''BAR'', 2)] [] [(''oo'', ''FOO''), (''ar'', ''BAR'')])"
  by code_simp

section \<open>The two input forms of \<open>build\<close>\<close>

text \<open>
  An empty positional mapping given together with keyword values is not rejected:
  the keyword values are built.
\<close>

theorem build_empty_mapping_with_kwargs_counterexample:
  "from_spec Cls_NlAttrSchema attr_foo_spec attr_foo_ids = Inr attr_foo_schema
   \<and> build_kwargs LittleEndian attr_foo_schema (VMapping []) [(''foo'', VInt 1)]
       = Inr [5, 0, 1, 0, 1, 0, 0, 0]"
proof (intro conjI)
  show "from_spec Cls_NlAttrSchema attr_foo_spec attr_foo_ids = Inr attr_foo_schema"
    by (rule attr_foo_compiles)
  show "build_kwargs LittleEndian attr_foo_schema (VMapping []) [(''foo'', VInt 1)]
          = Inr [5, 0, 1, 0, 1, 0, 0, 0]"
    by (simp add: attr_foo_schema_def attr_foo_ids_def eval_wire eval_codecs)
qed

text \<open>
  C8, as the code has it.  For every compiled attribute-set codec, \<open>build\<close> raises
  \<open>ValueError\<close> whenever the positional argument and the keyword values are both
  truthy (non-empty) and whenever both are falsy (absent or empty); it goes on only
  when exactly one of them is truthy.
\<close>

theorem build_input_forms_exclusive:
  assumes "from_spec Cls_NlAttrSchema spec ids = Inr S"
  shows "(truthy attr_values = (kwargs \<noteq> [])
            \<longrightarrow> build_kwargs bo S attr_values kwargs = Inl ValueError)
         \<and> (\<forall>b. build_kwargs bo S attr_values kwargs = Inr b
               \<longrightarrow> truthy attr_values \<noteq> (kwargs \<noteq> []))"
proof -
  from from_spec_NlAttrSchema_shape [OF assms] obtain subattr_schemata required_attrs name_mapping
    where S: "S = NlAttrSchema subattr_schemata ids required_attrs name_mapping"
    by blast
  have rejected: "build_kwargs bo S attr_values kwargs = Inl ValueError"
    if "truthy attr_values = (kwargs \<noteq> [])"
    using that by (simp add: S build_kwargs_def NlAttrSchema_build_def)
  show ?thesis
  proof (intro conjI impI allI)
    assume "truthy attr_values = (kwargs \<noteq> [])"
    then show "build_kwargs bo S attr_values kwargs = Inl ValueError"
      by (rule rejected)
  next
    fix b
    assume built: "build_kwargs bo S attr_values kwargs = Inr b"
    show "truthy attr_values \<noteq> (kwargs \<noteq> [])"
    proof
      assume "truthy attr_values = (kwargs \<noteq> [])"
      from rejected [OF this] built show False
        by simp
    qed
  qed
qed

theorem build_input_forms_exclusive_witness:
  "build_kwargs LittleEndian attr_foo_schema (VMapping [(''ATTR_FOO'', VInt 1)])
       [(''foo'', VInt 1)] = Inl ValueError
   \<and> build_kwargs LittleEndian attr_foo_schema VNone [] = Inl ValueError
   \<and> truthy VNone \<noteq> ([(''foo'', VInt 1)] \<noteq> [])"
  using build_input_forms_exclusive [OF attr_foo_compiles,
      of "VMapping [(''ATTR_FOO'', VInt 1)]" "[(''foo'', VInt 1)]" LittleEndian]
    build_input_forms_exclusive [OF attr_foo_compiles, of VNone "[]" LittleEndian]
  by simp


section \<open>The layout of built attribute streams\<close>

lemma length_tlv_bytes: "length (tlv_bytes bo (t, p)) = align4 (4 + length p)"
  using align4_ge [of "4 + length p"] by simp

lemma align4_mod [simp]: "align4 n mod 4 = 0"
  by (simp add: align4_def)

lemma struct_pack_H:
  assumes "struct_pack bo Fmt_H a = Inr x"
  shows "0 \<le> a" and "a < 65536" and "x = native_bytes bo 2 (nat a)"
proof -
  from assms have rng: "0 \<le> a" "a \<le> 65535"
    and x: "x = native_bytes bo 2 (nat (a mod 65536))"
    by (auto simp: struct_pack_def fmt_min_def fmt_max_def split: if_splits)
  from rng show "0 \<le> a" and "a < 65536"
    by simp_all
  from rng have "a mod 65536 = a"
    by (intro mod_pos_pos_trivial) simp_all
  with x show "x = native_bytes bo 2 (nat a)"
    by simp
qed

lemma pack_HH_tlv:
  assumes "pack_HH bo (int (attrib_hdr_len + length p)) i = Inr hdr"
  shows "0 \<le> i" and "tlv_fits (nat i, p)" and "pad (hdr @ p) = tlv_bytes bo (nat i, p)"
proof -
  from assms obtain x y where x: "struct_pack bo Fmt_H (int (attrib_hdr_len + length p)) = Inr x"
    and y: "struct_pack bo Fmt_H i = Inr y" and hdr: "hdr = x @ y"
    by (auto simp: pack_HH_def split: sum.splits)
  from struct_pack_H(2) [OF x] have len: "4 + length p < 65536"
    by (simp add: attrib_hdr_len_def)
  from struct_pack_H(3) [OF x] have "x = native_bytes bo 2 (attrib_hdr_len + length p)"
    by (simp only: nat_int)
  then have x': "x = native_bytes bo 2 (4 + length p)"
    by (simp add: attrib_hdr_len_def)
  from struct_pack_H [OF y] have i: "0 \<le> i" "i < 65536" and y': "y = native_bytes bo 2 (nat i)"
    by simp_all
  show "0 \<le> i" by fact
  from i len show "tlv_fits (nat i, p)"
    by simp
  have al: "align (4 + length p) = align4 (4 + length p)"
    using len by (simp add: align_small align4_def)
  have l: "length (hdr @ p) = 4 + length p"
    by (simp add: hdr x' y')
  show "pad (hdr @ p) = tlv_bytes bo (nat i, p)"
    unfolding pad_def Let_def l al by (simp add: hdr x' y')
qed

lemma native_value_bytes_2: "n < 65536 \<Longrightarrow> native_value bo (native_bytes bo 2 n) = n"
  by (simp add: native_value_bytes)

lemma tlv_header_at:
  assumes "tlv_fits (t, p)"
  shows "hdr_length bo (pre @ tlv_bytes bo (t, p) @ post) (length pre) = 4 + length p"
    and "hdr_type bo (pre @ tlv_bytes bo (t, p) @ post) (length pre) = t"
    and "py_slice (pre @ tlv_bytes bo (t, p) @ post) (length pre + 4)
           (length pre + (4 + length p)) = p"
proof -
  from assms have t: "t < 65536" and len: "4 + length p < 65536"
    by simp_all
  show "hdr_length bo (pre @ tlv_bytes bo (t, p) @ post) (length pre) = 4 + length p"
    using native_value_bytes_2 [OF len, of bo]
    by (simp add: hdr_length_def py_slice_def)
  show "hdr_type bo (pre @ tlv_bytes bo (t, p) @ post) (length pre) = t"
    using native_value_bytes_2 [OF t, of bo]
    by (simp add: hdr_type_def py_slice_def)
  show "py_slice (pre @ tlv_bytes bo (t, p) @ post) (length pre + 4)
           (length pre + (4 + length p)) = p"
    by (simp add: py_slice_def)
qed

lemma tlvs_from_concat:
  assumes "list_all tlv_fits tps"
  shows "tlvs_from bo (pre @ concat (map (tlv_bytes bo) tps) @ post) (length pre)
           (map tlv_attr tps)
         \<and> chain_end (length pre) (map tlv_attr tps)
             = length pre + length (concat (map (tlv_bytes bo) tps))"
  using assms
proof (induction tps arbitrary: pre)
  case Nil
  show ?case by simp
next
  case (Cons tp tps)
  obtain t p where tp: "tp = (t, p)"
    by (cases tp)
  from Cons.prems have fits: "tlv_fits (t, p)" and rest: "list_all tlv_fits tps"
    by (simp_all add: tp)
  let ?data = "pre @ concat (map (tlv_bytes bo) (tp # tps)) @ post"
  have data: "?data = pre @ tlv_bytes bo (t, p) @ (concat (map (tlv_bytes bo) tps) @ post)"
    by (simp add: tp)
  have data': "?data = (pre @ tlv_bytes bo (t, p)) @ concat (map (tlv_bytes bo) tps) @ post"
    by (simp add: tp)
  have next_off: "length pre + align4 (4 + length p) = length (pre @ tlv_bytes bo (t, p))"
    by (simp add: length_tlv_bytes del: tlv_bytes.simps)
  from Cons.IH [OF rest, of "pre @ tlv_bytes bo (t, p)"]
  have ih: "tlvs_from bo ?data (length pre + align4 (4 + length p)) (map tlv_attr tps)"
    and ih_end: "chain_end (length pre + align4 (4 + length p)) (map tlv_attr tps)
             = length (pre @ tlv_bytes bo (t, p)) + length (concat (map (tlv_bytes bo) tps))"
    unfolding next_off data' by simp_all
  have "length pre + 4 \<le> length ?data"
    unfolding data using align4_ge [of "4 + length p"]
    by (simp add: length_tlv_bytes del: tlv_bytes.simps)
  moreover have "hdr_length bo ?data (length pre) = 4 + length p"
    and "hdr_type bo ?data (length pre) = t"
    and "py_slice ?data (length pre + 4) (length pre + (4 + length p)) = p"
    unfolding data by (rule tlv_header_at [OF fits])+
  ultimately show ?case
    using ih ih_end by (simp add: tp del: tlv_bytes.simps)
qed

lemma splitter_concat:
  assumes "list_all tlv_fits tps"
  shows "parse_generic_attributes bo (concat (map (tlv_bytes bo) tps)) = Inr (map tlv_attr tps)"
  using tlvs_from_concat [OF assms, of bo "[]" "[]"]
  by (intro splitter_accepts) simp_all


lemma align4_add:
  assumes "off mod 4 = 0"
  shows "align4 (off + n) = off + align4 n"
proof -
  from assms obtain k where off: "off = 4 * k"
    by (auto dest!: mod_0_imp_dvd)
  have "(4 * k + (n + 3)) div 4 = k + (n + 3) div 4"
    by simp
  then show ?thesis
    by (simp add: align4_def off add.assoc add_mult_distrib)
qed

lemma layout_concat:
  assumes "list_all tlv_fits tps" and "length pre mod 4 = 0"
  shows "layout_from bo (pre @ concat (map (tlv_bytes bo) tps)) (length pre) tps"
  using assms
proof (induction tps arbitrary: pre)
  case Nil
  show ?case by simp
next
  case (Cons tp tps)
  obtain t p where tp: "tp = (t, p)"
    by (cases tp)
  from Cons.prems have fits: "tlv_fits (t, p)" and rest: "list_all tlv_fits tps"
    by (simp_all add: tp)
  let ?rest = "concat (map (tlv_bytes bo) tps)"
  let ?data = "pre @ concat (map (tlv_bytes bo) (tp # tps))"
  have data: "?data = pre @ tlv_bytes bo (t, p) @ (?rest @ [])"
    by (simp add: tp)
  have data': "?data = (pre @ tlv_bytes bo (t, p)) @ ?rest"
    by (simp add: tp)
  have ge: "4 + length p \<le> align4 (4 + length p)"
    by (rule align4_ge)
  have al: "align4 (length pre + (4 + length p)) = length pre + align4 (4 + length p)"
    by (rule align4_add [OF Cons.prems(2)])
  have next_off: "length pre + align4 (4 + length p) = length (pre @ tlv_bytes bo (t, p))"
    by (simp add: length_tlv_bytes del: tlv_bytes.simps)
  have "length (pre @ tlv_bytes bo (t, p)) mod 4 = 0"
    using Cons.prems(2) by (simp add: length_tlv_bytes mod_add_eq [symmetric] del: tlv_bytes.simps)
  from Cons.IH [OF rest this]
  have ih: "layout_from bo ?data (length pre + align4 (4 + length p)) tps"
    unfolding next_off data' .
  have "length pre + 4 \<le> length ?data"
    unfolding data using ge by (simp add: length_tlv_bytes del: tlv_bytes.simps)
  moreover have "hdr_length bo ?data (length pre) = 4 + length p"
    and "hdr_type bo ?data (length pre) = t"
    and "py_slice ?data (length pre + 4) (length pre + (4 + length p)) = p"
    unfolding data by (rule tlv_header_at [OF fits])+
  moreover have "length pre + align4 (4 + length p) \<le> length ?data"
    unfolding data by (simp add: length_tlv_bytes del: tlv_bytes.simps)
  moreover have "py_slice ?data (length pre + 4 + length p) (length pre + align4 (4 + length p))
           = replicate (align4 (4 + length p) - (4 + length p)) 0"
    using ge by (simp add: tp py_slice_def)
  ultimately show ?case
    using ih Cons.prems(2) ge by (simp add: tp al add.assoc del: tlv_bytes.simps)
qed

lemma NlAttrSchema_build_loop_tlvs:
  assumes "NlAttrSchema_build_loop bo builders ids items acc = Inr out"
  shows "\<exists>tps. out = acc @ concat (map (tlv_bytes bo) tps) \<and> list_all tlv_fits tps
           \<and> list_all2 (built_as ids builders) items tps"
  using assms
proof (induction items arbitrary: acc)
  case Nil
  then show ?case by simp
next
  case (Cons item items)
  obtain name val where item: "item = (name, val)"
    by (cases item)
  from Cons.prems obtain build_sub p i hdr
    where b: "map_of builders name = Some build_sub" and p: "build_sub val = Inr p"
      and i: "map_of ids name = Some i"
      and hdr: "pack_HH bo (int (attrib_hdr_len + length p)) i = Inr hdr"
      and rest: "NlAttrSchema_build_loop bo builders ids items (acc @ pad (hdr @ p)) = Inr out"
    by (auto simp: item Let_def split: option.splits sum.splits)
  from Cons.IH [OF rest] obtain tps
    where out: "out = (acc @ pad (hdr @ p)) @ concat (map (tlv_bytes bo) tps)"
      and fits: "list_all tlv_fits tps"
      and built: "list_all2 (built_as ids builders) items tps"
    by blast
  note pk = pack_HH_tlv [OF hdr]
  have "out = acc @ concat (map (tlv_bytes bo) ((nat i, p) # tps))"
    by (simp add: out pk(3) del: tlv_bytes.simps)
  moreover have "list_all tlv_fits ((nat i, p) # tps)"
    using fits pk(2) by simp
  moreover have "list_all2 (built_as ids builders) (item # items) ((nat i, p) # tps)"
    using built b p i pk(1) by (simp add: item)
  ultimately show ?case
    by blast
qed

lemma NlAttrSchema_build_items:
  assumes "NlAttrSchema_build bo builders ids required_attrs name_mapping attr_values kwargs = Inr out"
  shows "\<exists>items. given_items name_mapping attr_values kwargs = Some items \<and> items \<noteq> []
           \<and> set (map fst items) \<subseteq> set (map fst builders)
           \<and> set required_attrs \<subseteq> set (map fst items)
           \<and> NlAttrSchema_build_loop bo builders ids items [] = Inr out"
proof (cases "kwargs = []")
  case True
  with assms have t: "truthy attr_values"
    by (auto simp: NlAttrSchema_build_def split: if_splits)
  with True assms obtain items where av: "attr_values = VMapping items"
    by (cases attr_values) (auto simp: NlAttrSchema_build_def)
  with True assms t show ?thesis
    by (auto simp: NlAttrSchema_build_def given_items_def Let_def filter_empty_conv
        split: if_splits)
next
  case False
  with assms obtain items where tr: "translate_kwargs name_mapping kwargs [] = Inr items"
    by (auto simp: NlAttrSchema_build_def Let_def split: if_splits sum.splits)
  from False tr assms have loop: "NlAttrSchema_build_loop bo builders ids items [] = Inr out"
    and keys: "set (map fst items) \<subseteq> set (map fst builders)"
    and req: "set required_attrs \<subseteq> set (map fst items)"
    by (auto simp: NlAttrSchema_build_def Let_def filter_empty_conv split: if_splits)
  have "items \<noteq> []"
  proof -
    have "translate_kwargs name_mapping kws acc = Inr res \<Longrightarrow> kws \<noteq> [] \<or> acc \<noteq> [] \<Longrightarrow> res \<noteq> []"
      for kws acc res
    proof (induction kws arbitrary: acc)
      case Nil
      then show ?case by simp
    next
      case (Cons kv kws)
      obtain k v where kv: "kv = (k, v)" by (cases kv)
      from Cons.prems(1) obtain name where "map_of name_mapping k = Some name"
        and "translate_kwargs name_mapping kws (AList.update name v acc) = Inr res"
        by (auto simp: kv split: option.splits)
      moreover have "AList.update name v acc \<noteq> []"
        by (cases acc) auto
      ultimately show ?case
        using Cons.IH by blast
    qed
    from this [OF tr] False show ?thesis by simp
  qed
  with tr False loop keys req show ?thesis
    by (simp add: given_items_def)
qed

text \<open>
  C6.  Whatever an attribute-set codec builds is a sequence of attributes, one per
  item of the value tree in the order given: each starts at a multiple of four, its
  length field is 4 plus the length of the payload the child codec built, its type is
  the id of the item's name, and the bytes between the payload and the next multiple
  of four are zero and are not counted by the length field.
\<close>

theorem built_stream_layout:
  assumes "build_kwargs bo (NlAttrSchema subattr_schemata ids required_attrs name_mapping)
             attr_values kwargs = Inr b"
  shows "\<exists>items tps. given_items name_mapping attr_values kwargs = Some items
           \<and> list_all2 (built_as ids (map (map_prod id (build bo)) subattr_schemata)) items tps
           \<and> layout_from bo b 0 tps"
proof -
  let ?builders = "map (map_prod id (build bo)) subattr_schemata"
  from assms have "NlAttrSchema_build bo ?builders ids required_attrs name_mapping
                     attr_values kwargs = Inr b"
    by (simp add: build_kwargs_def)
  from NlAttrSchema_build_items [OF this] obtain items
    where items: "given_items name_mapping attr_values kwargs = Some items"
      and loop: "NlAttrSchema_build_loop bo ?builders ids items [] = Inr b"
    by blast
  from NlAttrSchema_build_loop_tlvs [OF loop] obtain tps
    where b: "b = concat (map (tlv_bytes bo) tps)" and fits: "list_all tlv_fits tps"
      and built: "list_all2 (built_as ids ?builders) items tps"
    by auto
  from layout_concat [OF fits, of "[]" bo] have "layout_from bo b 0 tps"
    by (simp add: b)
  with items built show ?thesis
    by blast
qed


section \<open>Attributes of unknown type\<close>

lemma find_attr_Inr:
  "find_attr children ids t = Inr r \<Longrightarrow> r = child_of children ids t"
  by (induction children) (auto simp: child_of_def split: option.splits if_splits)

lemma find_attr_total:
  "list_all (\<lambda>n. map_of ids n \<noteq> None) (map fst children)
   \<Longrightarrow> find_attr children ids t = Inr (child_of children ids t)"
  by (induction children) (auto simp: child_of_def split: option.splits)

lemma child_of_map:
  "child_of (map (map_prod id f) children) ids t = map_option (map_prod id f) (child_of children ids t)"
  by (induction children) (auto simp: child_of_def)

lemma declared_map [simp]:
  "declared (map (map_prod id f) children) ids t = declared children ids t"
  by (simp add: declared_def child_of_map)

lemma parse_loop_warnings_irrelevant:
  "outcome (NlAttrSchema_parse_loop P ids attrs acc ws)
     = outcome (NlAttrSchema_parse_loop P ids attrs acc ws')"
proof (induction attrs arbitrary: acc ws ws')
  case Nil
  show ?case by simp
next
  case (Cons a attrs)
  show ?case
    by (auto split: sum.splits option.splits intro: Cons.IH)
qed

lemma parse_loop_skips_undeclared:
  assumes "list_all (\<lambda>n. map_of ids n \<noteq> None) (map fst P)"
  shows "outcome (NlAttrSchema_parse_loop P ids attrs acc ws)
     = outcome
         (NlAttrSchema_parse_loop P ids (filter (\<lambda>a. declared P ids (atype a)) attrs) acc ws')"
proof (induction attrs arbitrary: acc ws ws')
  case Nil
  show ?case by simp
next
  case (Cons a attrs)
  note fa = find_attr_total [OF assms, of "atype a"]
  show ?case
  proof (cases "child_of P ids (atype a)")
    case None
    then show ?thesis
      using Cons.IH by (simp add: fa declared_def)
  next
    case (Some np)
    obtain n p where np: "np = (n, p)" by (cases np)
    show ?thesis
    proof (cases "p (adata a)")
      case (Inl e)
      with Some show ?thesis
        by (simp add: fa declared_def np)
    next
      case (Inr vw)
      with Some show ?thesis
        using Cons.IH by (cases vw) (simp add: fa declared_def np)
    qed
  qed
qed

lemma parse_loop_result:
  assumes "NlAttrSchema_parse_loop P ids attrs acc ws = Inr (kvs, ws_out)"
  shows "(\<forall>a \<in> set attrs. \<not> declared P ids (atype a) \<longrightarrow>
            UnknownAttribute (atype a) (candidates ids (atype a)) \<in> set ws_out)
         \<and> set ws \<subseteq> set ws_out
         \<and> set (map fst kvs)
             = set (map fst acc) \<union> {n. \<exists>a \<in> set attrs. \<exists>p. child_of P ids (atype a) = Some (n, p)}"
  using assms
proof (induction attrs arbitrary: acc ws)
  case Nil
  then show ?case by simp
next
  case (Cons a attrs)
  from Cons.prems obtain r where fa: "find_attr P ids (atype a) = Inr r"
    by (auto split: sum.splits)
  then have r: "r = child_of P ids (atype a)"
    by (rule find_attr_Inr)
  show ?case
  proof (cases r)
    case None
    with Cons.prems fa have "NlAttrSchema_parse_loop P ids attrs acc
        (ws @ [UnknownAttribute (atype a) (candidates ids (atype a))]) = Inr (kvs, ws_out)"
      by simp
    from Cons.IH [OF this] None r show ?thesis
      by (auto simp: declared_def)
  next
    case (Some np)
    obtain n p where np: "np = (n, p)" by (cases np)
    from Cons.prems fa Some np obtain v ws'
      where "NlAttrSchema_parse_loop P ids attrs (AList.update n v acc) (ws @ ws') = Inr (kvs, ws_out)"
      by (auto split: sum.splits)
    from Cons.IH [OF this] Some r np show ?thesis
      by (auto simp: declared_def AList.update_keys)
  qed
qed

text \<open>
  C7.  Let the splitter accept the buffer.  When \<open>parse\<close> returns, it has issued, for
  every attribute whose type denotes no child of the scope, the warning with that
  type and the names the id table maps to it, and the mapping it returns has exactly
  the names of the children that the attributes' types denote.  When every child of
  the scope has an id in the table, the attributes of undeclared type do not change
  the outcome: \<open>parse\<close> returns the value, or raises the error, that the attributes of
  declared type alone give.
\<close>

theorem unknown_attributes_skipped:
  assumes "parse_generic_attributes bo data = Inr attrs"
  shows "(\<forall>v ws. parse bo (NlAttrSchema subattr_schemata ids required_attrs name_mapping) data
                 = Inr (v, ws) \<longrightarrow>
            (\<forall>a \<in> set attrs. \<not> declared subattr_schemata ids (atype a) \<longrightarrow>
               UnknownAttribute (atype a) (candidates ids (atype a)) \<in> set ws)
            \<and> (\<exists>kvs. v = VMapping kvs
                 \<and> set (map fst kvs)
                     = {n. \<exists>a \<in> set attrs. \<exists>c.
                           child_of subattr_schemata ids (atype a) = Some (n, c)}))
         \<and> (list_all (\<lambda>n. map_of ids n \<noteq> None) (map fst subattr_schemata) \<longrightarrow>
              outcome
                (parse bo (NlAttrSchema subattr_schemata ids required_attrs name_mapping) data)
              = outcome
                  (NlAttrSchema_parse_attrs (map (map_prod id (parse bo)) subattr_schemata) ids
                     required_attrs
                     (filter (\<lambda>a. declared subattr_schemata ids (atype a)) attrs)))"
proof (intro conjI allI impI)
  let ?P = "map (map_prod id (parse bo)) subattr_schemata"
  fix v ws
  assume "parse bo (NlAttrSchema subattr_schemata ids required_attrs name_mapping) data
            = Inr (v, ws)"
  with assms obtain kvs
    where loop: "NlAttrSchema_parse_loop ?P ids attrs [] [] = Inr (kvs, ws)"
      and v: "v = VMapping kvs"
    by (auto simp: NlAttrSchema_parse_def NlAttrSchema_parse_attrs_def Let_def
        split: sum.splits if_splits)
  note res = parse_loop_result [OF loop]
  from res show "\<forall>a \<in> set attrs. \<not> declared subattr_schemata ids (atype a) \<longrightarrow>
               UnknownAttribute (atype a) (candidates ids (atype a)) \<in> set ws"
    by simp
  have "{n. \<exists>a \<in> set attrs. \<exists>p. child_of ?P ids (atype a) = Some (n, p)}
          = {n. \<exists>a \<in> set attrs. \<exists>c. child_of subattr_schemata ids (atype a) = Some (n, c)}"
    by (auto simp: child_of_map)
  with res v show "\<exists>kvs. v = VMapping kvs
                 \<and> set (map fst kvs)
                     = {n. \<exists>a \<in> set attrs. \<exists>c.
                           child_of subattr_schemata ids (atype a) = Some (n, c)}"
    by simp
next
  let ?P = "map (map_prod id (parse bo)) subattr_schemata"
  assume "list_all (\<lambda>n. map_of ids n \<noteq> None) (map fst subattr_schemata)"
  then have names: "list_all (\<lambda>n. map_of ids n \<noteq> None) (map fst ?P)"
    by (simp add: comp_def)
  have "outcome (NlAttrSchema_parse_attrs ?P ids required_attrs attrs)
      = outcome (NlAttrSchema_parse_attrs ?P ids required_attrs
          (filter (\<lambda>a. declared ?P ids (atype a)) attrs))"
    using parse_loop_skips_undeclared [OF names, of attrs "[]" "[]" "[]"]
    by (auto simp: NlAttrSchema_parse_attrs_def Let_def split: sum.splits)
  with assms show "outcome
                (parse bo (NlAttrSchema subattr_schemata ids required_attrs name_mapping) data)
              = outcome
                  (NlAttrSchema_parse_attrs ?P ids required_attrs
                     (filter (\<lambda>a. declared subattr_schemata ids (atype a)) attrs))"
    by (simp add: NlAttrSchema_parse_def)
qed


section \<open>Round trips\<close>

lemma str_roundtrip:
  assumes "NlAttrSchemaStr_build (VStr s) = Inr b"
  shows "NlAttrSchemaStr_parse b = Inr (VStr s)"
proof -
  from assms have ascii: "list_all (\<lambda>c. c < 128) s" and b: "b = map of_nat s @ [0]"
    by (auto simp: NlAttrSchemaStr_build_def encode_ascii_def split: if_splits)
  have "b = map of_nat (s @ [0])"
    by (simp add: b)
  moreover from ascii have "list_all (\<lambda>c. c < 128) (s @ [0])"
    by simp
  ultimately have "utf8_decode b = Inr (s @ [0])"
    by (simp only: utf8_decode_ascii)
  then show ?thesis
    by (simp add: NlAttrSchemaStr_parse_def)
qed

lemma array_build_loop_concat:
  assumes "NlAttrSchemaArray_build_loop build_sub xs acc = Inr out"
  shows "\<exists>ps. out = acc @ concat ps \<and> list_all2 (\<lambda>x p. build_sub x = Inr p) xs ps"
  using assms
proof (induction xs arbitrary: acc)
  case Nil
  then show ?case by simp
next
  case (Cons x xs)
  from Cons.prems obtain p where p: "build_sub x = Inr p"
    and rest: "NlAttrSchemaArray_build_loop build_sub xs (acc @ p) = Inr out"
    by (auto split: sum.splits)
  from Cons.IH [OF rest] obtain ps where "out = (acc @ p) @ concat ps"
    and "list_all2 (\<lambda>x p. build_sub x = Inr p) xs ps"
    by blast
  with p show ?case
    by (intro exI [of _ "p # ps"]) simp
qed

lemma array_parse_loop_concat:
  assumes "list_all2 (\<lambda>x p. NlAttrSchemaInt_build bo fmt x = Inr p) xs ps"
  shows "NlAttrSchemaArray_parse_loop bo fmt (concat ps) ret = Inr (ret @ xs)"
  using assms
proof (induction xs ps arbitrary: ret rule: list_all2_induct)
  case Nil
  show ?case by (simp add: NlAttrSchemaArray_parse_loop.simps)
next
  case (Cons x xs p ps)
  from Cons.hyps(1) obtain n where x: "x = VInt n" and pack: "struct_pack bo fmt n = Inr p"
    by (cases x) (auto simp: NlAttrSchemaInt_build_def)
  note pu = struct_pack_unpack [OF pack]
  from pu(1) calcsize_pos [of fmt] have "p \<noteq> []"
    by auto
  moreover from pu have "NlAttrSchemaInt_parse bo fmt p = Inr x"
    by (simp add: NlAttrSchemaInt_parse_def x)
  ultimately show ?case
    using Cons.IH [of "ret @ [x]"] pu(1)
    by (subst NlAttrSchemaArray_parse_loop.simps) simp
qed

lemma array_roundtrip:
  assumes "NlAttrSchemaArray_build (NlAttrSchemaInt_build bo fmt) (VList xs) = Inr b"
  shows "NlAttrSchemaArray_parse bo fmt b = Inr (VList xs, [])"
proof -
  from assms have "NlAttrSchemaArray_build_loop (NlAttrSchemaInt_build bo fmt) xs [] = Inr b"
    by (simp add: NlAttrSchemaArray_build_def)
  from array_build_loop_concat [OF this] obtain ps where "b = concat ps"
    and "list_all2 (\<lambda>x p. NlAttrSchemaInt_build bo fmt x = Inr p) xs ps"
    by auto
  then show ?thesis
    using array_parse_loop_concat [of bo fmt xs ps "[]"]
    by (simp add: NlAttrSchemaArray_parse_def)
qed

lemma list_build_loop_tlvs:
  assumes "NlAttrSchemaList_build_loop bo build_sub i xs acc = Inr out"
  shows "\<exists>ps. out = acc @ concat (map (tlv_bytes bo) (List.enumerate (Suc i) ps))
           \<and> list_all tlv_fits (List.enumerate (Suc i) ps)
           \<and> list_all2 (\<lambda>x p. build_sub x = Inr p) xs ps"
  using assms
proof (induction xs arbitrary: i acc)
  case Nil
  then show ?case by simp
next
  case (Cons x xs)
  from Cons.prems obtain p hdr where p: "build_sub x = Inr p"
    and hdr: "pack_HH bo (int (attrib_hdr_len + length p)) (int (i + 1)) = Inr hdr"
    and rest: "NlAttrSchemaList_build_loop bo build_sub (i + 1) xs (acc @ pad (hdr @ p)) = Inr out"
    by (auto simp: Let_def split: sum.splits)
  from Cons.IH [OF rest] obtain ps
    where out: "out = (acc @ pad (hdr @ p)) @ concat (map (tlv_bytes bo) (List.enumerate (Suc (i + 1)) ps))"
      and fits: "list_all tlv_fits (List.enumerate (Suc (i + 1)) ps)"
      and built: "list_all2 (\<lambda>x p. build_sub x = Inr p) xs ps"
    by blast
  from pack_HH_tlv(2,3) [OF hdr, unfolded nat_int] have fit: "tlv_fits (Suc i, p)"
    and pad: "pad (hdr @ p) = tlv_bytes bo (Suc i, p)"
    by (simp_all del: tlv_bytes.simps tlv_fits.simps)
  show ?case
    using out fits built p fit pad
    by (intro exI [of _ "p # ps"]) (simp del: tlv_bytes.simps tlv_fits.simps)
qed

lemma max_atype_enumerate:
  "ps \<noteq> [] \<Longrightarrow> max_atype (map tlv_attr (List.enumerate (Suc i) ps)) = i + length ps"
proof (induction ps arbitrary: i)
  case Nil
  then show ?case by simp
next
  case (Cons p ps)
  show ?case
  proof (cases "ps = []")
    case True
    then show ?thesis by simp
  next
    case False
    from Cons.IH [OF this, of "Suc i"] show ?thesis
      by simp
  qed
qed

lemma list_parse_loop_fill:
  assumes "list_all2 (\<lambda>x p. parse_sub p = Inr (x, [])) xs ps"
  shows "NlAttrSchemaList_parse_loop parse_sub (map tlv_attr (List.enumerate (Suc (length done)) ps))
           (done @ replicate (length ps) VNone) ws
         = Inr (done @ xs, ws)"
  using assms
proof (induction xs ps arbitrary: "done" rule: list_all2_induct)
  case Nil
  show ?case by simp
next
  case (Cons x xs p ps)
  have set: "list_setitem (done @ replicate (length (p # ps)) VNone)
               (int (Suc (length done)) - 1) x
             = Inr ((done @ [x]) @ replicate (length ps) VNone)"
    by (simp add: list_setitem_def Let_def list_update_append)
  from Cons.IH [of "done @ [x]"] Cons.hyps(1) show ?case
    using set by simp
qed

lemma list_roundtrip:
  assumes built: "NlAttrSchemaList_build bo build_sub (VList xs) = Inr b"
    and child: "\<And>x p. x \<in> set xs \<Longrightarrow> build_sub x = Inr p \<Longrightarrow> parse_sub p = Inr (x, [])"
  shows "NlAttrSchemaList_parse bo parse_sub b = Inr (VList xs, [])"
proof -
  from built have "NlAttrSchemaList_build_loop bo build_sub 0 xs [] = Inr b"
    by (simp add: NlAttrSchemaList_build_def)
  from list_build_loop_tlvs [OF this] obtain ps
    where b: "b = concat (map (tlv_bytes bo) (List.enumerate (Suc 0) ps))"
      and fits: "list_all tlv_fits (List.enumerate (Suc 0) ps)"
      and ps: "list_all2 (\<lambda>x p. build_sub x = Inr p) xs ps"
    by auto
  from ps child have parsed: "list_all2 (\<lambda>x p. parse_sub p = Inr (x, [])) xs ps"
    by (auto simp: list_all2_conv_all_nth)
  have split: "parse_generic_attributes bo b = Inr (map tlv_attr (List.enumerate (Suc 0) ps))"
    unfolding b by (rule splitter_concat [OF fits])
  show ?thesis
  proof (cases "ps = []")
    case True
    with ps have "xs = []" by simp
    with True split show ?thesis
      by (simp add: NlAttrSchemaList_parse_def)
  next
    case False
    have "NlAttrSchemaList_parse_loop parse_sub (map tlv_attr (List.enumerate (Suc 0) ps))
            (replicate (length ps) VNone) [] = Inr (xs, [])"
      using list_parse_loop_fill [OF parsed, of "[]" "[]"] by simp
    moreover from False have "List.enumerate (Suc 0) ps \<noteq> []"
      by (cases ps) simp_all
    ultimately show ?thesis
      using False split
      by (simp add: NlAttrSchemaList_parse_def max_atype_enumerate)
  qed
qed


lemma map_of_map_prod:
  "map_of (map (map_prod id f) xs) k = map_option f (map_of xs k)"
  by (induction xs) auto

lemma update_fresh:
  "k \<notin> set (map fst al) \<Longrightarrow> AList.update k v al = al @ [(k, v)]"
  by (induction al) auto

lemma child_of_unique:
  assumes "map_of children name = Some c"
    and "map_of ids name = Some (int t)"
    and "list_all (\<lambda>n. map_of ids n \<noteq> None) (map fst children)"
    and "\<And>n. n \<in> set (map fst children) \<Longrightarrow> map_of ids n = Some (int t) \<Longrightarrow> n = name"
  shows "find_attr children ids t = Inr (Some (name, c))"
  using assms
proof (induction children)
  case Nil
  then show ?case by simp
next
  case (Cons nc children)
  obtain n c' where nc: "nc = (n, c')" by (cases nc)
  from Cons.prems(3) obtain i where i: "map_of ids n = Some i"
    by (auto simp: nc)
  show ?case
  proof (cases "int t = i")
    case True
    with i Cons.prems(4) [of n] have "n = name"
      by (simp add: nc)
    with Cons.prems(1) i True show ?thesis
      by (simp add: nc)
  next
    case False
    with i Cons.prems(2) have "n \<noteq> name"
      by auto
    with Cons.prems have "find_attr children ids t = Inr (Some (name, c))"
      by (intro Cons.IH) (auto simp: nc)
    with i False show ?thesis
      by (simp add: nc)
  qed
qed

lemma scope_ok_unique:
  assumes "scope_ok names ids" and "n \<in> set names" and "m \<in> set names"
    and "map_of ids n = map_of ids m"
  shows "n = m"
proof -
  from assms(1) have "inj_on (map_of ids) (set (remdups names))"
    by (simp add: scope_ok_def distinct_map)
  with assms(2-4) show ?thesis
    by (auto dest: inj_onD)
qed

lemma set_parse_loop_items:
  assumes "list_all2 (parsed_as ids parsers) items tps"
    and "distinct (map fst items)"
    and "set (map fst acc) \<inter> set (map fst items) = {}"
  shows "NlAttrSchema_parse_loop parsers ids (map tlv_attr tps) acc ws = Inr (acc @ items, ws)"
  using assms
proof (induction items tps arbitrary: acc rule: list_all2_induct)
  case Nil
  show ?case by simp
next
  case (Cons item items tp tps)
  obtain name val where item: "item = (name, val)" by (cases item)
  obtain t p where tp: "tp = (t, p)" by (cases tp)
  from Cons.hyps(1) obtain parse_sub
    where found: "find_attr parsers ids t = Inr (Some (name, parse_sub))"
      and parsed: "parse_sub p = Inr (val, [])"
    by (auto simp: item tp split: sum.splits option.splits)
  from Cons.prems have fresh: "name \<notin> set (map fst acc)"
    by (auto simp: item)
  have "NlAttrSchema_parse_loop parsers ids (map tlv_attr tps) (acc @ [(name, val)]) ws
          = Inr ((acc @ [(name, val)]) @ items, ws)"
    using Cons.prems by (intro Cons.IH) (auto simp: item)
  with found parsed show ?case
    by (simp add: item tp update_fresh [OF fresh])
qed

lemma set_roundtrip:
  assumes built: "NlAttrSchema_build bo (map (map_prod id (build bo)) subattr_schemata) ids
                    required_attrs name_mapping attr_values kwargs = Inr b"
    and items: "given_items name_mapping attr_values kwargs = Some items"
    and scope: "scope_ok (map fst subattr_schemata) ids"
    and keys: "distinct (map fst items)"
    and child: "\<And>name val c p. (name, val) \<in> set items \<Longrightarrow> map_of subattr_schemata name = Some c
                  \<Longrightarrow> build bo c val = Inr p \<Longrightarrow> parse bo c p = Inr (val, [])"
  shows "NlAttrSchema_parse bo (map (map_prod id (parse bo)) subattr_schemata) ids
           required_attrs b = Inr (VMapping items, [])"
proof -
  let ?B = "map (map_prod id (build bo)) subattr_schemata"
  let ?P = "map (map_prod id (parse bo)) subattr_schemata"
  from NlAttrSchema_build_items [OF built] items
  have req: "set required_attrs \<subseteq> set (map fst items)"
    and loop: "NlAttrSchema_build_loop bo ?B ids items [] = Inr b"
    by auto
  from NlAttrSchema_build_loop_tlvs [OF loop] obtain tps
    where b: "b = concat (map (tlv_bytes bo) tps)" and fits: "list_all tlv_fits tps"
      and built_as: "list_all2 (built_as ids ?B) items tps"
    by auto
  from scope have names: "list_all (\<lambda>n. map_of ids n \<noteq> None) (map fst ?P)"
    by (simp add: scope_ok_def comp_def)
  have "parsed_as ids ?P item tp" if "item \<in> set items" and "built_as ids ?B item tp"
    for item tp
  proof -
    obtain name val where item: "item = (name, val)" by (cases item)
    obtain t p where tp: "tp = (t, p)" by (cases tp)
    from that(2) obtain c where t: "map_of ids name = Some (int t)"
      and c: "map_of subattr_schemata name = Some c" and p: "build bo c val = Inr p"
      by (auto simp: item tp map_of_map_prod split: option.splits)
    from c have name: "name \<in> set (map fst subattr_schemata)"
      by (auto dest: map_of_SomeD intro: rev_image_eqI)
    have "find_attr ?P ids t = Inr (Some (name, parse bo c))"
    proof (rule child_of_unique [OF _ t names])
      show "map_of ?P name = Some (parse bo c)"
        by (simp add: map_of_map_prod c)
    next
      fix n
      assume "n \<in> set (map fst ?P)" and "map_of ids n = Some (int t)"
      with scope name t show "n = name"
        by (intro scope_ok_unique [of "map fst subattr_schemata" ids]) (simp_all add: comp_def)
    qed
    moreover from child [OF _ c p] that(1) have "parse bo c p = Inr (val, [])"
      by (simp add: item)
    ultimately show ?thesis
      by (simp add: item tp)
  qed
  with built_as have "list_all2 (parsed_as ids ?P) items tps"
    by (auto simp: list_all2_conv_all_nth)
  from set_parse_loop_items [OF this keys, of "[]" "[]"]
  have "NlAttrSchema_parse_loop ?P ids (map tlv_attr tps) [] [] = Inr (items, [])"
    by simp
  moreover have "parse_generic_attributes bo b = Inr (map tlv_attr tps)"
    unfolding b by (rule splitter_concat [OF fits])
  ultimately show ?thesis
    using req
    by (auto simp: NlAttrSchema_parse_def NlAttrSchema_parse_attrs_def Let_def filter_empty_conv)
qed

lemma schema_roundtrip:
  assumes "ids_ok S" and "arrays_sized S" and "conforms S v" and "build bo S v = Inr b"
  shows "parse bo S b = Inr (v, [])"
  using assms
proof (induction S arbitrary: v b)
  case (NlAttrSchemaInt fmt)
  then obtain n where "v = VInt n" and "struct_pack bo fmt n = Inr b"
    by (cases v) (auto simp: NlAttrSchemaInt_build_def)
  then show ?case
    using struct_pack_unpack(2) [of bo fmt n b] by (simp add: NlAttrSchemaInt_parse_def)
next
  case NlAttrSchemaStr
  then obtain s where "v = VStr s" and "NlAttrSchemaStr_build (VStr s) = Inr b"
    by (cases v) auto
  then show ?case
    by (simp add: str_roundtrip)
next
  case NlAttrSchemaBytes
  then show ?case
    by (cases v) (auto simp: NlAttrSchemaBytes_build_def NlAttrSchemaBytes_parse_def)
next
  case (NlAttrSchemaList S ids)
  from NlAttrSchemaList.prems(3) obtain xs where v: "v = VList xs"
    and xs: "list_all (conforms S) xs"
    by (cases v) auto
  show ?case
    unfolding v parse.simps
  proof (rule list_roundtrip)
    show "NlAttrSchemaList_build bo (build bo S) (VList xs) = Inr b"
      using NlAttrSchemaList.prems(4) by (simp add: v)
  next
    fix x p
    assume "x \<in> set xs" and "build bo S x = Inr p"
    with xs NlAttrSchemaList.prems(1,2) show "parse bo S p = Inr (x, [])"
      by (intro NlAttrSchemaList.IH) (auto simp: list_all_iff)
  qed
next
  case (NlAttrSchemaArray S ids)
  from NlAttrSchemaArray.prems(2) obtain fmt where S: "S = NlAttrSchemaInt fmt"
    by (cases S) auto
  from NlAttrSchemaArray.prems(3) obtain xs where v: "v = VList xs"
    by (cases v) auto
  from NlAttrSchemaArray.prems(4) show ?case
    by (simp add: S v array_roundtrip)
next
  case (NlAttrSchema subattr_schemata ids required_attrs name_mapping)
  from NlAttrSchema.prems(3) obtain items where v: "v = VMapping items"
    and keys: "distinct (map fst items)"
    and typed: "list_all (\<lambda>(name, val).
                     case map_of (map (map_prod id conforms) subattr_schemata) name of
                       Some ok \<Rightarrow> ok val
                     | None \<Rightarrow> False) items"
    by (cases v) auto
  show ?case
    unfolding v parse.simps
  proof (rule set_roundtrip [where kwargs = "[]" and attr_values = v and name_mapping = name_mapping])
    show "NlAttrSchema_build bo (map (map_prod id (build bo)) subattr_schemata) ids
            required_attrs name_mapping v [] = Inr b"
      using NlAttrSchema.prems(4) by simp
    show "given_items name_mapping v [] = Some items"
      by (simp add: given_items_def v)
    show "scope_ok (map fst subattr_schemata) ids"
      using NlAttrSchema.prems(1) by simp
    show "distinct (map fst items)"
      by (rule keys)
  next
    fix name val c p
    assume item: "(name, val) \<in> set items" and c: "map_of subattr_schemata name = Some c"
      and p: "build bo c val = Inr p"
    from c have mem: "(name, c) \<in> set subattr_schemata"
      by (rule map_of_SomeD)
    from typed item c have "conforms c val"
      by (auto simp: list_all_iff map_of_map_prod)
    moreover from NlAttrSchema.prems(1,2) mem have "ids_ok c" "arrays_sized c"
      by (auto simp: list_all_iff)
    ultimately show "parse bo c p = Inr (val, [])"
      using p mem by (intro NlAttrSchema.IH [of "(name, c)" c]) simp_all
  qed
qed


lemma update_set:
  "(n, c) \<in> set (AList.update k v al) \<Longrightarrow> (n, c) = (k, v) \<or> (n, c) \<in> set al"
  by (induction al) (auto split: if_splits)

lemma from_spec_loop_children:
  assumes "from_spec_loop cp xs subs0 nm0 req0 = Inr (subs, nm, req)" and "(n, c) \<in> set subs"
  shows "(n, c) \<in> set subs0 \<or> (\<exists>f. (f, Inr c) \<in> set xs)"
  using assms
proof (induction xs arbitrary: subs0 nm0 req0)
  case Nil
  then show ?case by simp
next
  case (Cons x xs)
  obtain f r where x: "x = (f, r)" by (cases x)
  from Cons.prems(1) obtain c' name subs1 nm1 req1 where r: "r = Inr c'"
    and subs1: "subs1 = AList.update name c' subs0"
    and rest: "from_spec_loop cp xs subs1 nm1 req1 = Inr (subs, nm, req)"
    by (auto simp: x Let_def split: sum.splits option.splits spec.splits)
  from Cons.IH [OF rest Cons.prems(2)] show ?case
    using update_set [of n c name c' subs0] by (auto simp: x r subs1)
qed

lemma from_spec_arrays_sized:
  "from_spec cls spec ids = Inr S \<Longrightarrow> arrays_sized S"
proof (induction cls spec ids arbitrary: S rule: from_spec.induct)
  case (1 spec ids)
  then show ?case
    by (auto split: spec.splits option.splits)
next
  case (2 spec ids)
  then show ?case by auto
next
  case (3 spec ids)
  then show ?case by auto
next
  case (4 spec ids)
  from "4.prems" obtain n p t st r where spec: "spec = Dict n p t (Some st) r"
    by (auto split: spec.splits option.splits)
  define subelem_spec where
    "subelem_spec = (case st of Str s \<Rightarrow> Dict None None (Some (Str s)) None False | _ \<Rightarrow> st)"
  from "4.prems" obtain cls sub where cls: "get_schema_class subelem_spec = Inr cls"
    and sub: "from_spec cls subelem_spec ids = Inr sub" and S: "S = NlAttrSchemaList sub ids"
    by (auto simp: spec subelem_spec_def Let_def split: sum.splits)
  from "4.IH" [OF spec refl subelem_spec_def cls sub] show ?case
    by (simp add: S)
next
  case (5 spec ids)
  from "5.prems" obtain n p t st r where spec: "spec = Dict n p t (Some st) r"
    by (auto split: spec.splits option.splits)
  define subelem_spec where
    "subelem_spec = (case st of Str s \<Rightarrow> Dict None None (Some (Str s)) None False | _ \<Rightarrow> st)"
  from "5.prems" obtain cls sub where cls: "get_schema_class subelem_spec = Inr cls"
    and sub: "from_spec cls subelem_spec ids = Inr sub" and S: "S = NlAttrSchemaArray sub ids"
    and sized: "schema_size sub \<noteq> None"
    by (auto simp: spec subelem_spec_def Let_def split: sum.splits if_splits)
  from "5.IH" [OF spec refl subelem_spec_def cls sub] sized show ?case
    by (simp add: S)
next
  case (6 spec ids)
  let ?compile = "\<lambda>field_spec.
                       (field_spec,
                        case get_schema_class field_spec of
                          Inl e \<Rightarrow> Inl e
                        | Inr schema_cls \<Rightarrow> from_spec schema_cls field_spec ids)"
  from "6.prems" obtain spec' fields names cp subs nm req
    where spec': "(case spec of Dict n p None st r \<Rightarrow> Inl KeyError
                  | Dict n p (Some x) st r \<Rightarrow> Inr x | _ \<Rightarrow> Inr spec) = Inr spec'"
      and fields: "spec_fields spec' = Inr fields" and names: "field_names fields = Inr names"
      and loop: "from_spec_loop cp (map ?compile fields) [] [] [] = Inr (subs, nm, req)"
      and S: "S = NlAttrSchema subs ids req nm"
    by (auto simp: Let_def split: sum.splits)
  have "arrays_sized c" if "(n, c) \<in> set subs" for n c
  proof -
    from from_spec_loop_children [OF loop that] obtain f where "(f, Inr c) \<in> set (map ?compile fields)"
      by auto
    then obtain cls where f: "f \<in> set fields" and cls: "get_schema_class f = Inr cls"
      and c: "from_spec cls f ids = Inr c"
      by (auto split: sum.splits)
    from "6.IH" [OF spec' fields names refl refl f cls c]
    show ?thesis .
  qed
  then show ?case
    by (auto simp: S list_all_iff)
qed


lemma attr_pair_compiles:
  "from_spec Cls_NlAttrSchema attr_pair_spec attr_pair_ids = Inr attr_pair_schema"
  unfolding attr_pair_spec_def attr_pair_schema_def by code_simp

lemma attr_pair_builds:
  "build_kwargs LittleEndian attr_pair_schema (VMapping attr_pair_value) [] = Inr attr_pair_bytes"
  by (simp add: attr_pair_schema_def attr_pair_ids_def attr_pair_value_def attr_pair_bytes_def
      eval_wire eval_codecs)

lemma attr_pair_ok:
  "ids_ok attr_pair_schema" "conforms attr_pair_schema (VMapping attr_pair_value)"
  by (simp_all add: attr_pair_schema_def attr_pair_ids_def attr_pair_value_def scope_ok_def)

lemma compiled_roundtrip:
  assumes compiled: "from_spec Cls_NlAttrSchema spec ids0
                       = Inr (NlAttrSchema subattr_schemata ids required_attrs name_mapping)"
    and ids: "ids_ok (NlAttrSchema subattr_schemata ids required_attrs name_mapping)"
    and items: "given_items name_mapping attr_values kwargs = Some items"
    and typed: "conforms (NlAttrSchema subattr_schemata ids required_attrs name_mapping)
                  (VMapping items)"
    and built: "build_kwargs bo (NlAttrSchema subattr_schemata ids required_attrs name_mapping)
                  attr_values kwargs = Inr b"
  shows "parse bo (NlAttrSchema subattr_schemata ids required_attrs name_mapping) b
           = Inr (VMapping items, [])"
    and "build bo (NlAttrSchema subattr_schemata ids required_attrs name_mapping) (VMapping items)
           = Inr b"
proof -
  let ?S = "NlAttrSchema subattr_schemata ids required_attrs name_mapping"
  let ?B = "map (map_prod id (build bo)) subattr_schemata"
  from from_spec_arrays_sized [OF compiled] have sized: "arrays_sized ?S" .
  from built have nb: "NlAttrSchema_build bo ?B ids required_attrs name_mapping attr_values kwargs
                         = Inr b"
    by (simp add: build_kwargs_def)
  from typed have keys: "distinct (map fst items)"
    and each: "list_all (\<lambda>(name, val).
                     case map_of (map (map_prod id conforms) subattr_schemata) name of
                       Some ok \<Rightarrow> ok val
                     | None \<Rightarrow> False) items"
    by simp_all
  have "parse bo ?S b = Inr (VMapping items, [])"
    unfolding parse.simps
  proof (rule set_roundtrip [OF nb items _ keys])
    show "scope_ok (map fst subattr_schemata) ids"
      using ids by simp
  next
    fix name val c p
    assume item: "(name, val) \<in> set items" and c: "map_of subattr_schemata name = Some c"
      and p: "build bo c val = Inr p"
    from c have mem: "(name, c) \<in> set subattr_schemata"
      by (rule map_of_SomeD)
    from each item c have "conforms c val"
      by (auto simp: list_all_iff map_of_map_prod)
    moreover from ids sized mem have "ids_ok c" "arrays_sized c"
      by (auto simp: list_all_iff)
    ultimately show "parse bo c p = Inr (val, [])"
      using p by (intro schema_roundtrip)
  qed
  then show "parse bo ?S b = Inr (VMapping items, [])" .
  from NlAttrSchema_build_items [OF nb] items
  have "items \<noteq> []" and "set (map fst items) \<subseteq> set (map fst ?B)"
    and "set required_attrs \<subseteq> set (map fst items)"
    and "NlAttrSchema_build_loop bo ?B ids items [] = Inr b"
    by auto
  then show "build bo ?S (VMapping items) = Inr b"
    by (auto simp: NlAttrSchema_build_def Let_def filter_empty_conv)
qed

text \<open>
  C1.  Let \<open>S\<close> be a compiled attribute-set codec in which every child of a scope has
  an id and different children of a scope have different ids, and let \<open>build\<close> accept
  a value tree of the schema's types, given either as the positional mapping or as
  keyword values (then the tree is the keyword values under their symbolic names).
  Parsing the bytes that \<open>build\<close> returns gives back that value tree, item for item
  and in order, and issues no warning.
\<close>

theorem parse_build_roundtrip:
  assumes "from_spec Cls_NlAttrSchema spec ids0
             = Inr (NlAttrSchema subattr_schemata ids required_attrs name_mapping)"
    and "ids_ok (NlAttrSchema subattr_schemata ids required_attrs name_mapping)"
    and "given_items name_mapping attr_values kwargs = Some items"
    and "conforms (NlAttrSchema subattr_schemata ids required_attrs name_mapping) (VMapping items)"
    and "build_kwargs bo (NlAttrSchema subattr_schemata ids required_attrs name_mapping)
           attr_values kwargs = Inr b"
  shows "parse bo (NlAttrSchema subattr_schemata ids required_attrs name_mapping) b
           = Inr (VMapping items, [])"
  using assms by (rule compiled_roundtrip(1))

theorem parse_build_roundtrip_witness:
  "parse LittleEndian attr_pair_schema attr_pair_bytes = Inr (VMapping attr_pair_value, [])"
proof -
  have "given_items [(''x'', ''ATTR_X''), (''name'', ''ATTR_NAME'')] (VMapping attr_pair_value) []
          = Some attr_pair_value"
    by (simp add: given_items_def)
  from parse_build_roundtrip [OF attr_pair_compiles [unfolded attr_pair_schema_def]
      attr_pair_ok(1) [unfolded attr_pair_schema_def] this
      attr_pair_ok(2) [unfolded attr_pair_schema_def]
      attr_pair_builds [unfolded attr_pair_schema_def]]
  show ?thesis
    by (simp only: attr_pair_schema_def)
qed

text \<open>
  \<open>parse\<close> accepts the empty buffer and a buffer whose padding is not zero; for the
  first \<open>build\<close> refuses the parsed (empty) value, for the second it returns a
  different buffer.
\<close>

theorem build_parse_counterexample:
  "from_spec Cls_NlAttrSchema attr_foo_spec attr_foo_ids = Inr attr_foo_schema
   \<and> parse LittleEndian attr_foo_schema [] = Inr (VMapping [], [])
   \<and> build LittleEndian attr_foo_schema (VMapping []) = Inl ValueError
   \<and> parse LittleEndian attr_foo_schema [5, 0, 1, 0, 7, 255, 255, 255]
       = Inr (VMapping [(''ATTR_FOO'', VInt 7)], [])
   \<and> build LittleEndian attr_foo_schema (VMapping [(''ATTR_FOO'', VInt 7)])
       = Inr [5, 0, 1, 0, 7, 0, 0, 0]"
proof (intro conjI)
  show "from_spec Cls_NlAttrSchema attr_foo_spec attr_foo_ids = Inr attr_foo_schema"
    by (rule attr_foo_compiles)
  have "parse_generic_attributes LittleEndian [] = Inr []"
    by (rule splitter_accepts) simp_all
  then show "parse LittleEndian attr_foo_schema [] = Inr (VMapping [], [])"
    by (simp add: attr_foo_schema_def attr_foo_ids_def eval_wire eval_codecs)
  show "build LittleEndian attr_foo_schema (VMapping []) = Inl ValueError"
    by (simp add: attr_foo_schema_def attr_foo_ids_def eval_wire eval_codecs)
  have "parse_generic_attributes LittleEndian [5, 0, 1, 0, 7, 255, 255, 255]
          = Inr [GNLAttribute 5 1 [7]]"
    by (rule splitter_accepts) (simp_all add: eval_wire)
  then show "parse LittleEndian attr_foo_schema [5, 0, 1, 0, 7, 255, 255, 255]
       = Inr (VMapping [(''ATTR_FOO'', VInt 7)], [])"
    by (simp add: attr_foo_schema_def attr_foo_ids_def eval_wire eval_codecs)
  show "build LittleEndian attr_foo_schema (VMapping [(''ATTR_FOO'', VInt 7)])
       = Inr [5, 0, 1, 0, 7, 0, 0, 0]"
    by (simp add: attr_foo_schema_def attr_foo_ids_def eval_wire eval_codecs)
qed

text \<open>
  C2, as the code has it.  Let \<open>S\<close> be a compiled attribute-set codec in which every
  child of a scope has an id and different children of a scope have different ids.
  Every buffer that \<open>build\<close> returns for a value tree of the schema's types is accepted
  by \<open>parse\<close>, without a warning, and building the parsed value returns the same
  buffer, byte for byte.
\<close>

theorem build_parse_roundtrip_of_built:
  assumes "from_spec Cls_NlAttrSchema spec ids0
             = Inr (NlAttrSchema subattr_schemata ids required_attrs name_mapping)"
    and "ids_ok (NlAttrSchema subattr_schemata ids required_attrs name_mapping)"
    and "given_items name_mapping attr_values kwargs = Some items"
    and "conforms (NlAttrSchema subattr_schemata ids required_attrs name_mapping) (VMapping items)"
    and "build_kwargs bo (NlAttrSchema subattr_schemata ids required_attrs name_mapping)
           attr_values kwargs = Inr b"
  shows "\<exists>v. parse bo (NlAttrSchema subattr_schemata ids required_attrs name_mapping) b
                = Inr (v, [])
             \<and> build bo (NlAttrSchema subattr_schemata ids required_attrs name_mapping) v
                = Inr b"
  using compiled_roundtrip [OF assms] by blast

theorem build_parse_roundtrip_of_built_witness:
  "\<exists>v. parse LittleEndian attr_pair_schema attr_pair_bytes = Inr (v, [])
      \<and> build LittleEndian attr_pair_schema v = Inr attr_pair_bytes"
proof -
  have "given_items [(''x'', ''ATTR_X''), (''name'', ''ATTR_NAME'')] VNone
          [(''x'', VInt 0xDEADBEEF), (''name'', VStr [104, 105])] = Some attr_pair_value"
    by (simp add: given_items_def attr_pair_value_def)
  moreover have "build_kwargs LittleEndian attr_pair_schema VNone
          [(''x'', VInt 0xDEADBEEF), (''name'', VStr [104, 105])] = Inr attr_pair_bytes"
    by (simp add: attr_pair_schema_def attr_pair_ids_def attr_pair_bytes_def
      eval_wire eval_codecs)
  ultimately show ?thesis
    using build_parse_roundtrip_of_built [OF attr_pair_compiles [unfolded attr_pair_schema_def]
      attr_pair_ok(1) [unfolded attr_pair_schema_def] _
      attr_pair_ok(2) [unfolded attr_pair_schema_def], of VNone
      "[(''x'', VInt 0xDEADBEEF), (''name'', VStr [104, 105])]" LittleEndian attr_pair_bytes]
    by (simp only: attr_pair_schema_def) 
qed

theorem built_stream_layout_witness:
  "\<exists>items tps. given_items [(''x'', ''ATTR_X''), (''name'', ''ATTR_NAME'')]
                   (VMapping attr_pair_value) [] = Some items
      \<and> list_all2 (built_as attr_pair_ids
             (map (map_prod id (build LittleEndian))
                [(''ATTR_X'', NlAttrSchemaInt Fmt_I), (''ATTR_NAME'', NlAttrSchemaStr)])) items tps
      \<and> layout_from LittleEndian attr_pair_bytes 0 tps"
  using built_stream_layout [OF attr_pair_builds [unfolded attr_pair_schema_def]] .


theorem unknown_attributes_skipped_witness:
  "parse LittleEndian attr_foo_schema [5, 0, 99, 0, 1, 0, 0, 0, 5, 0, 1, 0, 7, 0, 0, 0]
     = Inr (VMapping [(''ATTR_FOO'', VInt 7)], [UnknownAttribute 99 []])
   \<and> outcome (parse LittleEndian attr_foo_schema
                [5, 0, 99, 0, 1, 0, 0, 0, 5, 0, 1, 0, 7, 0, 0, 0])
       = outcome (NlAttrSchema_parse_attrs
                    (map (map_prod id (parse LittleEndian)) [(''ATTR_FOO'', NlAttrSchemaInt Fmt_B)])
                    attr_foo_ids [] [GNLAttribute 5 1 [7]])
   \<and> UnknownAttribute 99 (candidates attr_foo_ids 99) \<in> set [UnknownAttribute 99 []]"
proof -
  let ?data = "[5, 0, 99, 0, 1, 0, 0, 0, 5, 0, 1, 0, 7, 0, 0, 0] :: bytes"
  have split: "parse_generic_attributes LittleEndian ?data
                 = Inr [GNLAttribute 5 99 [1], GNLAttribute 5 1 [7]]"
    by (rule splitter_accepts) (simp_all add: eval_wire)
  then have parsed: "parse LittleEndian attr_foo_schema ?data
     = Inr (VMapping [(''ATTR_FOO'', VInt 7)], [UnknownAttribute 99 []])"
    by (simp add: attr_foo_schema_def attr_foo_ids_def eval_wire eval_codecs)
  have names: "list_all (\<lambda>n. map_of attr_foo_ids n \<noteq> None)
                 (map fst [(''ATTR_FOO'', NlAttrSchemaInt Fmt_B)])"
    by (simp add: attr_foo_ids_def)
  have declared: "filter (\<lambda>a. declared [(''ATTR_FOO'', NlAttrSchemaInt Fmt_B)] attr_foo_ids (atype a))
                    [GNLAttribute 5 99 [1], GNLAttribute 5 1 [7]] = [GNLAttribute 5 1 [7]]"
    by (simp add: declared_def child_of_def attr_foo_ids_def)
  from unknown_attributes_skipped [OF split, of "[(''ATTR_FOO'', NlAttrSchemaInt Fmt_B)]"
      attr_foo_ids "[]" "[(''foo'', ''ATTR_FOO'')]"] names parsed
  show ?thesis
    unfolding declared attr_foo_schema_def
    by (simp add: candidates_def attr_foo_ids_def del: parse.simps)
qed

end
